theory Spec2Isabelle
  imports Main "HOL-Library.AList" "HOL-Library.Sublist" "HOL-Library.Multiset"
begin

section \<open>Data model of huffmanCompressor.py\<close>

text \<open>
  A Python \<open>bytes\<close> value iterates as integers in \<open>range(256)\<close>; it is a list of naturals
  here, and the range check that \<open>bytearray(...)\<close> performs is written out in
  \<open>bytearray_of\<close>. A \<open>dict\<close> is an association list: insertion order is what the stable
  sort of the frequency table breaks ties by. Strings of the characters 0 and 1 are
  \<open>string\<close>.
\<close>

type_synonym bytes = "nat list"
type_synonym 'v dict = "(nat \<times> 'v) list"

datatype error = IndexError | KeyError | OverflowError | ValueError | TypeError | PickleError

text \<open>
  The tree is a dynamically typed nest of Python lists and ints: an int is a decoded
  byte, a list is indexed by the next bit.
\<close>

datatype tree = Leaf nat | Branch "tree list"

text \<open>An entry of \<open>sorted_frequency\<close>: the tuple (branch, frequency, trace dictionary).\<close>

type_synonym element = "tree \<times> int \<times> string dict"

text \<open>
  The fields of a \<open>Huffman\<close> object that the engine reads and writes. The three entries of
  the dictionary \<open>comp_tools\<close> are the fields \<open>frequency\<close>, \<open>tree_tool\<close> and \<open>trace\<close>.
  \<open>out_file\<close> and \<open>export_product\<close> only print or write \<open>output\<close> to a file and are left
  out.
\<close>

record huffman =
  worker :: bytes
  output_buf :: bytes
  frequency :: "int dict"
  tree_tool :: tree
  trace :: "string dict"

section \<open>new_worker\<close>

text \<open>
  \<open>new_worker\<close> for a \<open>bytes\<close> argument (lines 74, 75, 84). \<open>compress\<close> and \<open>decompress\<close>
  call it under \<open>if alt_in:\<close>, which is false for \<open>None\<close> and for the empty buffer.
\<close>

definition new_worker :: "bytes \<Rightarrow> huffman \<Rightarrow> huffman" where
  "new_worker new_in self =
     self\<lparr>output_buf := [], frequency := [], tree_tool := Branch [], trace := [], worker := new_in\<rparr>"

definition set_alt_in :: "bytes option \<Rightarrow> huffman \<Rightarrow> huffman" where
  "set_alt_in alt_in self =
     (case alt_in of
        None \<Rightarrow> self
      | Some new_in \<Rightarrow> if new_in = [] then self else new_worker new_in self)"

section \<open>compress\<close>

subsection \<open>Frequency count (lines 137 to 143)\<close>

definition count_char :: "int dict \<Rightarrow> nat \<Rightarrow> int dict" where
  "count_char working_frequency char =
     (case map_of working_frequency char of
        Some n \<Rightarrow> AList.update char (n + 1) working_frequency
      | None \<Rightarrow> AList.update char 1 working_frequency)"

definition count_frequency :: "bytes \<Rightarrow> int dict" where
  "count_frequency w = foldl count_char [] w"

subsection \<open>Tree builder (lines 150 to 172)\<close>

text \<open>
  \<open>sorted(xs, key=k, reverse=True)\<close> is a stable sort into descending key order: entries
  with equal keys keep their relative order. \<open>sort_key\<close> is a stable insertion sort into
  ascending order, so sorting on the negated key is the same list.
\<close>

definition sorted_reverse :: "('a \<Rightarrow> int) \<Rightarrow> 'a list \<Rightarrow> 'a list" where
  "sorted_reverse key xs = sort_key (\<lambda>x. - key x) xs"

definition freq_of :: "element \<Rightarrow> int" where
  "freq_of e = fst (snd e)"

definition trace_of :: "element \<Rightarrow> string dict" where
  "trace_of e = snd (snd e)"

definition init_sorted :: "int dict \<Rightarrow> element list" where
  "init_sorted freq =
     map (\<lambda>char. (Leaf (fst char), snd char, [(fst char, [])])) (sorted_reverse snd freq)"

definition char_count :: "string \<Rightarrow> string dict \<Rightarrow> string dict" where
  "char_count app_val count_loc = map (\<lambda>(char, counter). (char, app_val @ counter)) count_loc"

text \<open>\<open>d1 | d2\<close>: a copy of \<open>d1\<close> updated with the items of \<open>d2\<close> in their order.\<close>

definition dict_or :: "'v dict \<Rightarrow> 'v dict \<Rightarrow> 'v dict" where
  "dict_or d1 d2 = foldl (\<lambda>d (k, v). AList.update k v d) d1 d2"

definition new_branch :: "element \<Rightarrow> element \<Rightarrow> element" where
  "new_branch set1 set2 =
     (Branch [fst set1, fst set2],
      freq_of set1 + freq_of set2,
      dict_or (char_count ''0'' (trace_of set1)) (char_count ''1'' (trace_of set2)))"

text \<open>
  One pass of the loop body (lines 157 to 169), for a list of more than two entries:
  \<open>pop(-1)\<close> twice, append the new branch, sort again.
\<close>

definition loop_body :: "element list \<Rightarrow> element list" where
  "loop_body sorted_frequency =
     (let set1 = last sorted_frequency;
          set2 = last (butlast sorted_frequency);
          popped = butlast (butlast sorted_frequency)
      in sorted_reverse freq_of (popped @ [new_branch set1 set2]))"

function build_loop :: "element list \<Rightarrow> element list" where
  "build_loop sorted_frequency =
     (if length sorted_frequency > 2 then build_loop (loop_body sorted_frequency)
      else sorted_frequency)"
  by pat_completeness auto
termination
  by (relation "measure length") (auto simp: loop_body_def sorted_reverse_def)

declare build_loop.simps [simp del]

text \<open>
  Line 172 reads \<open>sorted_frequency[0]\<close> and \<open>sorted_frequency[1]\<close>; either raises
  IndexError on a list that is too short.
\<close>

definition final_trace :: "element list \<Rightarrow> error + string dict" where
  "final_trace sorted_frequency =
     (if length sorted_frequency < 2 then Inl IndexError
      else Inr (dict_or (char_count ''0'' (trace_of (sorted_frequency ! 0)))
                        (char_count ''1'' (trace_of (sorted_frequency ! 1)))))"

subsection \<open>Bit packer (lines 177 to 192)\<close>

text \<open>\<open>"".join([trace[char] for char in worker])\<close>; a missing key raises KeyError.\<close>

fun encode :: "string dict \<Rightarrow> bytes \<Rightarrow> error + string" where
  "encode tr [] = Inr []"
| "encode tr (char # w) =
     (case map_of tr char of
        None \<Rightarrow> Inl KeyError
      | Some code \<Rightarrow> (case encode tr w of Inl e \<Rightarrow> Inl e | Inr rest \<Rightarrow> Inr (code @ rest)))"

function pad_loop :: "string \<Rightarrow> nat \<Rightarrow> string \<times> nat" where
  "pad_loop encoded padding =
     (if length encoded mod 8 \<noteq> 0 then pad_loop (encoded @ ''1'') (padding + 1)
      else (encoded, padding))"
  by pat_completeness auto
termination
  by (relation "measure (\<lambda>(encoded, padding). (8 - length encoded mod 8) mod 8)")
     (auto simp: mod_Suc)

declare pad_loop.simps [simp del]

text \<open>\<open>int(s, 2)\<close>: ValueError on the empty string and on any character but 0 and 1.\<close>

definition bit_val :: "char \<Rightarrow> nat" where
  "bit_val c = (if c = CHR ''1'' then 1 else 0)"

definition bits_value :: "string \<Rightarrow> nat" where
  "bits_value s = foldl (\<lambda>a c. 2 * a + bit_val c) 0 s"

definition int_base2 :: "string \<Rightarrow> error + nat" where
  "int_base2 s =
     (if s = [] \<or> (\<exists>c \<in> set s. c \<noteq> CHR ''0'' \<and> c \<noteq> CHR ''1'') then Inl ValueError
      else Inr (bits_value s))"

text \<open>The slices \<open>encoded[chunk:chunk + 8]\<close> for \<open>chunk in range(0, len(encoded), 8)\<close>.\<close>

function chunks :: "string \<Rightarrow> string list" where
  "chunks encoded = (if encoded = [] then [] else take 8 encoded # chunks (drop 8 encoded))"
  by pat_completeness auto
termination
  by (relation "measure length") auto

declare chunks.simps [simp del]

fun chunk_loop :: "string list \<Rightarrow> nat list \<Rightarrow> error + nat list" where
  "chunk_loop [] chunked = Inr chunked"
| "chunk_loop (chunk # rest) chunked =
     (case int_base2 chunk of
        Inl e \<Rightarrow> Inl e
      | Inr n \<Rightarrow> chunk_loop rest (chunked @ [n]))"

definition bytearray_of :: "nat list \<Rightarrow> error + bytes" where
  "bytearray_of ns = (if \<forall>n \<in> set ns. n < 256 then Inr ns else Inl ValueError)"

text \<open>Lines 177 to 192 in one piece: encode, pad, cut into bytes.\<close>

definition bit_packer :: "string dict \<Rightarrow> bytes \<Rightarrow> error + bytes" where
  "bit_packer tr w =
     (case encode tr w of
        Inl e \<Rightarrow> Inl e
      | Inr encoded0 \<Rightarrow>
          let (encoded, padding) = pad_loop encoded0 0
          in (case chunk_loop (chunks encoded) [padding] of
                Inl e \<Rightarrow> Inl e
              | Inr chunked \<Rightarrow> bytearray_of chunked))"

subsection \<open>Frame assembly (lines 197 to 202)\<close>

text \<open>\<open>n.to_bytes(2, "big")\<close> raises OverflowError when \<open>n\<close> does not fit in two bytes.\<close>

definition to_bytes2 :: "nat \<Rightarrow> error + bytes" where
  "to_bytes2 n = (if n < 65536 then Inr [n div 256, n mod 256] else Inl OverflowError)"

definition frame_assemble :: "(tree \<Rightarrow> bytes) \<Rightarrow> tree \<Rightarrow> bytes \<Rightarrow> error + bytes" where
  "frame_assemble dumps tr byte_convert =
     (let pickle_tree = dumps tr
      in case to_bytes2 (length pickle_tree) of
           Inl e \<Rightarrow> Inl OverflowError
         | Inr len_tree \<Rightarrow> Inr (len_tree @ pickle_tree @ byte_convert))"

subsection \<open>The method\<close>

text \<open>
  \<open>compress\<close> with \<open>export = False\<close>. \<open>pickle.dumps\<close> is a library function; it is the
  parameter \<open>dumps\<close>. The result is \<open>Inr\<close> of the object after a completed call, or
  \<open>Inl\<close> of the exception raised and the object as the raise leaves it.
\<close>

definition compress ::
  "(tree \<Rightarrow> bytes) \<Rightarrow> bytes option \<Rightarrow> huffman \<Rightarrow> (error \<times> huffman) + huffman" where
  "compress dumps alt_in self0 =
     (let self1 = set_alt_in alt_in self0;
          self2 = self1\<lparr>frequency := count_frequency (worker self1)\<rparr>;
          sorted_frequency = build_loop (init_sorted (frequency self2));
          self3 = self2\<lparr>tree_tool := Branch (map fst sorted_frequency)\<rparr>
      in case final_trace sorted_frequency of
           Inl e \<Rightarrow> Inl (e, self3)
         | Inr tr \<Rightarrow>
             let self4 = self3\<lparr>trace := tr\<rparr>
             in (case bit_packer (trace self4) (worker self4) of
                   Inl e \<Rightarrow> Inl (e, self4)
                 | Inr byte_convert \<Rightarrow>
                     (case frame_assemble dumps (tree_tool self4) byte_convert of
                        Inl e \<Rightarrow> Inl (e, self4)
                      | Inr out \<Rightarrow> Inr (self4\<lparr>output_buf := out\<rparr>))))"

section \<open>decompress\<close>

text \<open>
  The nested function \<open>recursion\<close> (lines 209 to 225). Indexing the bit string raises IndexError on
  the empty string, an int is not subscriptable (TypeError), and a list shorter than
  the index raises IndexError. The bit string holds only the characters that \<open>bin\<close>
  writes.
\<close>

fun recursion :: "tree \<Rightarrow> string \<Rightarrow> error + (nat \<times> string)" where
  "recursion branch [] = Inl IndexError"
| "recursion (Leaf v) (c # cut_down) = Inl TypeError"
| "recursion (Branch bs) (c # cut_down) =
     (let new_val = bit_val c
      in if new_val < length bs then
           (case bs ! new_val of
              Leaf x \<Rightarrow> Inr (x, cut_down)
            | Branch sub \<Rightarrow> recursion (Branch sub) cut_down)
         else Inl IndexError)"

text \<open>The loop of lines 251 to 254. Every call of \<open>recursion\<close> that returns has consumed a bit.\<close>

function decode_loop :: "tree \<Rightarrow> string \<Rightarrow> nat list \<Rightarrow> error + nat list" where
  "decode_loop decomp_tree bit_string decoded =
     (if bit_string = [] then Inr decoded
      else (case recursion decomp_tree bit_string of
              Inl e \<Rightarrow> Inl e
            | Inr (char, new_work) \<Rightarrow> decode_loop decomp_tree new_work (decoded @ [char])))"
  by pat_completeness auto
termination
proof (relation "measure (\<lambda>(decomp_tree, bit_string, decoded). length bit_string)")
  show "wf (measure (\<lambda>(decomp_tree :: tree, bit_string :: string, decoded :: nat list).
              length bit_string))"
    by simp
next
  fix decomp_tree :: tree and bit_string :: string and decoded :: "nat list"
    and x2 :: "nat \<times> string" and char :: nat and new_work :: string
  assume ret: "recursion decomp_tree bit_string = Inr x2" "(char, new_work) = x2"
  have shorter: "recursion b s = Inr (c, w) \<Longrightarrow> length w < length s" for b s c w
  proof (induction s arbitrary: b)
    case Nil
    then show ?case by simp
  next
    case (Cons c' cut_down)
    then show ?case
      by (cases b) (auto simp: Let_def split: if_splits tree.splits intro: less_SucI)
  qed
  from ret have "length new_work < length bit_string"
    using shorter [of decomp_tree bit_string char new_work] by simp
  then show "((decomp_tree, new_work, decoded @ [char]), decomp_tree, bit_string, decoded)
        \<in> measure (\<lambda>(decomp_tree, bit_string, decoded). length bit_string)"
    by simp
qed

declare decode_loop.simps [simp del]

definition from_bytes :: "bytes \<Rightarrow> nat" where
  "from_bytes bs = foldl (\<lambda>a b. a * 256 + b) 0 bs"

text \<open>\<open>xs[i:j]\<close> for indices that are not negative.\<close>

definition slice :: "nat \<Rightarrow> nat \<Rightarrow> 'a list \<Rightarrow> 'a list" where
  "slice i j xs = take (j - i) (drop i xs)"

text \<open>
  \<open>xs[:-n]\<close> for \<open>n\<close> that is not negative. \<open>-0\<close> is \<open>0\<close>, so for \<open>n = 0\<close> the slice is
  \<open>xs[:0]\<close>, the empty sequence; for \<open>n\<close> beyond the length it is empty as well.
\<close>

definition slice_to_neg :: "nat \<Rightarrow> 'a list \<Rightarrow> 'a list" where
  "slice_to_neg n xs = (if n = 0 then [] else take (length xs - n) xs)"

text \<open>\<open>bin(num)[2:]\<close> and \<open>str.zfill\<close>.\<close>

fun bin_digits :: "nat \<Rightarrow> string" where
  "bin_digits n =
     (if n < 2 then [if n = 1 then CHR ''1'' else CHR ''0'']
      else bin_digits (n div 2) @ [if n mod 2 = 1 then CHR ''1'' else CHR ''0''])"

declare bin_digits.simps [simp del]

definition zfill :: "nat \<Rightarrow> string \<Rightarrow> string" where
  "zfill width s = replicate (width - length s) CHR ''0'' @ s"

definition bits_of :: "bytes \<Rightarrow> string" where
  "bits_of decomp_string = concat (map (\<lambda>num. zfill 8 (bin_digits num)) decomp_string)"

text \<open>
  Splitting the frame (lines 235 to 238). \<open>pickle.loads\<close> is the parameter \<open>loads\<close>,
  with \<open>None\<close> for any exception it raises. \<open>worker[len_tree + 2]\<close> raises IndexError
  past the end of the buffer.
\<close>

definition split_frame :: "(bytes \<Rightarrow> tree option) \<Rightarrow> bytes \<Rightarrow> error + (tree \<times> nat \<times> bytes)" where
  "split_frame loads w =
     (let len_tree = from_bytes (slice 0 2 w)
      in case loads (slice 2 (len_tree + 2) w) of
           None \<Rightarrow> Inl PickleError
         | Some decomp_tree \<Rightarrow>
             if length w \<le> len_tree + 2 then Inl IndexError
             else Inr (decomp_tree, w ! (len_tree + 2), drop (len_tree + 3) w))"

text \<open>\<open>decompress\<close> with \<open>export = False\<close>: split the frame, strip the padding, decode.\<close>

definition decompress ::
  "(bytes \<Rightarrow> tree option) \<Rightarrow> bytes option \<Rightarrow> huffman \<Rightarrow> (error \<times> huffman) + huffman" where
  "decompress loads alt_in self0 =
     (let self = set_alt_in alt_in self0
      in case split_frame loads (worker self) of
           Inl e \<Rightarrow> Inl (e, self)
         | Inr (decomp_tree, padding, decomp_string) \<Rightarrow>
             let bit_string = slice_to_neg padding (bits_of decomp_string)
             in (case decode_loop decomp_tree bit_string [] of
                   Inl e \<Rightarrow> Inl (e, self)
                 | Inr decoded \<Rightarrow>
                     (case bytearray_of decoded of
                        Inl e \<Rightarrow> Inl (e, self)
                      | Inr out \<Rightarrow> Inr (self\<lparr>output_buf := out\<rparr>))))"

section \<open>The constructor\<close>

text \<open>\<open>Huffman(content_in)\<close> for a \<open>bytes\<close> argument and no output file (lines 49 to 55).\<close>

definition huffman_init :: "bytes \<Rightarrow> huffman" where
  "huffman_init content_in =
     new_worker content_in
       \<lparr>worker = [], output_buf = [], frequency = [], tree_tool = Branch [], trace = []\<rparr>"

section \<open>A tree codec to instantiate pickle with\<close>

text \<open>
  The engine treats the pickled tree as an opaque blob. Where a concrete codec is needed,
  this one stands in: a leaf is the bytes 0 and its value, a list is the byte 1, its
  items, and the byte 2. The reader is a stack machine over the bytes.
\<close>

fun tree_dumps :: "tree \<Rightarrow> bytes" where
  "tree_dumps (Leaf n) = [0, n]"
| "tree_dumps (Branch ts) = 1 # concat (map tree_dumps ts) @ [2]"

fun loads_step :: "(tree list list \<times> bool) option \<Rightarrow> nat \<Rightarrow> (tree list list \<times> bool) option" where
  "loads_step None b = None"
| "loads_step (Some (stack, True)) b =
     (case stack of [] \<Rightarrow> None | cur # below \<Rightarrow> Some ((cur @ [Leaf b]) # below, False))"
| "loads_step (Some (stack, False)) b =
     (if b = 0 then Some (stack, True)
      else if b = 1 then Some ([] # stack, False)
      else if b = 2 then
        (case stack of
           cur # nxt # below \<Rightarrow> Some ((nxt @ [Branch cur]) # below, False)
         | _ \<Rightarrow> None)
      else None)"

definition tree_loads :: "bytes \<Rightarrow> tree option" where
  "tree_loads bs =
     (case foldl loads_step (Some ([[]], False)) bs of
        Some ([[t]], False) \<Rightarrow> Some t
      | _ \<Rightarrow> None)"

section \<open>Notions the properties are stated with\<close>

text \<open>The object a call ends with, whether it completed or raised.\<close>

definition state_of :: "(error \<times> huffman) + huffman \<Rightarrow> huffman" where
  "state_of r = (case r of Inl (e, self) \<Rightarrow> self | Inr self \<Rightarrow> self)"

text \<open>The number of filler bits that bring a bit string to a multiple of 8 bits.\<close>

definition padding_of :: "string \<Rightarrow> nat" where
  "padding_of encoded = (8 - length encoded mod 8) mod 8"

text \<open>No code of the table is a prefix of the code of another byte.\<close>

definition prefix_free :: "string dict \<Rightarrow> bool" where
  "prefix_free tr = (\<forall>(k1, c1) \<in> set tr. \<forall>(k2, c2) \<in> set tr. k1 \<noteq> k2 \<longrightarrow> \<not> prefix c1 c2)"

definition binary_codes :: "string dict \<Rightarrow> bool" where
  "binary_codes tr = (\<forall>(k, c) \<in> set tr. set c \<subseteq> {CHR ''0'', CHR ''1''})"

text \<open>The keys of all trace dictionaries of the working list, in list order.\<close>

definition all_keys :: "element list \<Rightarrow> nat list" where
  "all_keys sf = concat (map (\<lambda>e. map fst (trace_of e)) sf)"

text \<open>What every pass of the builder loop keeps true of the working list.\<close>

definition builder_inv :: "element list \<Rightarrow> bool" where
  "builder_inv sf =
     (distinct (all_keys sf)
      \<and> (\<forall>e \<in> set sf. prefix_free (trace_of e) \<and> binary_codes (trace_of e)))"

text \<open>
  The working lists the loop of lines 156 to 169 sees at its head, for a frequency
  table: the sorted list of leaves, and the result of the body on any list of more than
  two entries that it sees.
\<close>

inductive loop_state :: "int dict \<Rightarrow> element list \<Rightarrow> bool" for freq where
  start: "loop_state freq (init_sorted freq)"
| step: "loop_state freq sf \<Longrightarrow> length sf > 2 \<Longrightarrow> loop_state freq (loop_body sf)"

text \<open>
  Following a code from a node of the tree, one list index a bit, ends at the leaf of a
  byte value: what \<open>recursion\<close> does on the bits of one code.
\<close>

fun reaches :: "tree \<Rightarrow> string \<Rightarrow> nat \<Rightarrow> bool" where
  "reaches t [] k = (t = Leaf k)"
| "reaches (Leaf v) (b # c) k = False"
| "reaches (Branch bs) (b # c) k = (bit_val b < length bs \<and> reaches (bs ! bit_val b) c k)"

text \<open>Every code of every entry of the working list leads to its byte in the entry's tree.\<close>

definition paths_inv :: "element list \<Rightarrow> bool" where
  "paths_inv sf = (\<forall>e \<in> set sf. \<forall>(k, c) \<in> set (trace_of e). reaches (fst e) c k)"

section \<open>The tree builder\<close>

subsection \<open>Dictionaries\<close>

lemma update_fresh: "k \<notin> fst ` set d \<Longrightarrow> AList.update k v d = d @ [(k, v)]"
  by (induction d) auto

lemma dict_or_disjoint:
  "distinct (map fst d2) \<Longrightarrow> fst ` set d1 \<inter> fst ` set d2 = {} \<Longrightarrow> dict_or d1 d2 = d1 @ d2"
proof (induction d2 arbitrary: d1)
  case Nil
  then show ?case by (simp add: dict_or_def)
next
  case (Cons p d2)
  obtain k v where p: "p = (k, v)" by (cases p)
  from Cons.prems p have fresh: "k \<notin> fst ` set d1" by auto
  have "dict_or d1 (p # d2) = dict_or (d1 @ [(k, v)]) d2"
    using fresh by (simp add: dict_or_def p update_fresh)
  also have "\<dots> = (d1 @ [(k, v)]) @ d2"
    using Cons.prems p by (intro Cons.IH) auto
  finally show ?case by (simp add: p)
qed

lemma keys_char_count [simp]: "map fst (char_count a d) = map fst d"
  by (simp add: char_count_def case_prod_unfold comp_def)

lemma set_char_count: "set (char_count a d) = (\<lambda>(k, c). (k, a @ c)) ` set d"
  by (simp add: char_count_def)

lemma keys_set_char_count [simp]: "fst ` set (char_count a d) = fst ` set d"
  using keys_char_count [of a d] by (metis set_map)

lemma combine_traces:
  assumes "distinct (map fst t2)" "fst ` set t1 \<inter> fst ` set t2 = {}"
  shows "dict_or (char_count ''0'' t1) (char_count ''1'' t2)
           = char_count ''0'' t1 @ char_count ''1'' t2"
  using assms by (intro dict_or_disjoint) simp_all

lemma prefix_free_combine:
  assumes "prefix_free t1" "prefix_free t2"
  shows "prefix_free (char_count ''0'' t1 @ char_count ''1'' t2)"
  using assms unfolding prefix_free_def set_char_count set_append
  by (auto 4 4)

lemma binary_codes_combine:
  assumes "binary_codes t1" "binary_codes t2"
  shows "binary_codes (char_count ''0'' t1 @ char_count ''1'' t2)"
  using assms unfolding binary_codes_def set_char_count set_append
  by (auto 4 4)

subsection \<open>Keys under sorting\<close>

lemma mset_all_keys: "mset (all_keys sf) = (\<Sum>e \<in># mset sf. mset (map fst (trace_of e)))"
  by (induction sf) (simp_all add: all_keys_def)

lemma all_keys_sorted_reverse: "mset (all_keys (sorted_reverse key sf)) = mset (all_keys sf)"
  by (simp add: mset_all_keys sorted_reverse_def)

lemma distinct_all_keys_sorted [simp]:
  "distinct (all_keys (sorted_reverse key sf)) = distinct (all_keys sf)"
  using all_keys_sorted_reverse by (rule mset_eq_imp_distinct_iff)

lemma set_all_keys_sorted [simp]:
  "set (all_keys (sorted_reverse key sf)) = set (all_keys sf)"
  using all_keys_sorted_reverse by (rule mset_eq_setD)

lemma set_sorted_reverse [simp]: "set (sorted_reverse key xs) = set xs"
  by (simp add: sorted_reverse_def)

lemma length_sorted_reverse [simp]: "length (sorted_reverse key xs) = length xs"
  by (simp add: sorted_reverse_def)

lemma all_keys_append [simp]: "all_keys (xs @ ys) = all_keys xs @ all_keys ys"
  by (simp add: all_keys_def)

lemma all_keys_simps [simp]:
  "all_keys [] = []" "all_keys (e # es) = map fst (trace_of e) @ all_keys es"
  by (simp_all add: all_keys_def)

lemma last_two:
  "2 \<le> length xs \<Longrightarrow> xs = butlast (butlast xs) @ [last (butlast xs), last xs]"
proof -
  assume len: "2 \<le> length xs"
  then have "xs \<noteq> []" and "butlast xs \<noteq> []"
    by (auto simp: butlast_conv_take)
  then have "xs = butlast xs @ [last xs]" and "butlast xs = butlast (butlast xs) @ [last (butlast xs)]"
    by simp_all
  then show ?thesis by (metis append.assoc append_Cons append_Nil)
qed

subsection \<open>The frequency table\<close>

lemma count_char_keys:
  "map fst (count_char acc c) = (if c \<in> set (map fst acc) then map fst acc else map fst acc @ [c])"
  by (auto simp: count_char_def AList.update_keys map_of_eq_None_iff split: option.splits)

lemma foldl_count_char_keys:
  "distinct (map fst acc) \<Longrightarrow>
     distinct (map fst (foldl count_char acc w))
     \<and> set (map fst (foldl count_char acc w)) = set (map fst acc) \<union> set w"
proof (induction w arbitrary: acc)
  case Nil
  then show ?case by simp
next
  case (Cons c w)
  have "distinct (map fst (count_char acc c))"
    using Cons.prems by (simp add: count_char_keys)
  from Cons.IH [OF this] show ?case
    by (auto simp: count_char_keys split: if_splits)
qed

lemma count_frequency_keys:
  "distinct (map fst (count_frequency w))" "set (map fst (count_frequency w)) = set w"
  using foldl_count_char_keys [of "[]" w] by (simp_all add: count_frequency_def)

lemma length_count_frequency: "length (count_frequency w) = card (set w)"
  using count_frequency_keys [of w] by (metis distinct_card length_map)

subsection \<open>The invariant of the loop\<close>

lemma trace_of_new_branch:
  "trace_of (new_branch set1 set2)
     = dict_or (char_count ''0'' (trace_of set1)) (char_count ''1'' (trace_of set2))"
  by (simp add: new_branch_def trace_of_def)

lemma all_keys_init: "all_keys (init_sorted freq) = map fst (sorted_reverse snd freq)"
  by (simp add: all_keys_def init_sorted_def trace_of_def comp_def concat_map_singleton)

lemma builder_inv_init:
  assumes "distinct (map fst freq)"
  shows "builder_inv (init_sorted freq)" "set (all_keys (init_sorted freq)) = fst ` set freq"
proof -
  have "mset (map fst (sorted_reverse snd freq)) = mset (map fst freq)"
    by (simp add: sorted_reverse_def)
  then have "distinct (map fst (sorted_reverse snd freq))"
    using assms mset_eq_imp_distinct_iff by blast
  then show "builder_inv (init_sorted freq)"
    unfolding builder_inv_def all_keys_init
    by (auto simp: init_sorted_def trace_of_def prefix_free_def binary_codes_def)
  show "set (all_keys (init_sorted freq)) = fst ` set freq"
    by (simp add: all_keys_init)
qed

lemma loop_body_inv:
  assumes len: "2 < length sf" and inv: "builder_inv sf"
  shows "builder_inv (loop_body sf)" "set (all_keys (loop_body sf)) = set (all_keys sf)"
    "length (loop_body sf) = length sf - 1"
proof -
  define set1 where "set1 = last sf"
  define set2 where "set2 = last (butlast sf)"
  define popped where "popped = butlast (butlast sf)"
  have sf: "sf = popped @ [set2, set1]"
    unfolding set1_def set2_def popped_def using len by (intro last_two) simp
  have body: "loop_body sf = sorted_reverse freq_of (popped @ [new_branch set1 set2])"
    by (simp add: loop_body_def Let_def set1_def set2_def popped_def)
  have inv': "builder_inv (popped @ [set2, set1])"
    by (subst sf [symmetric]) (rule inv)
  from inv' have dist: "distinct (all_keys popped @ map fst (trace_of set2) @ map fst (trace_of set1))"
    by (simp add: builder_inv_def)
  have tr: "trace_of (new_branch set1 set2)
          = char_count ''0'' (trace_of set1) @ char_count ''1'' (trace_of set2)"
    unfolding trace_of_new_branch using dist by (intro combine_traces) auto
  from inv' have pf: "prefix_free (trace_of set1)" "prefix_free (trace_of set2)"
    "binary_codes (trace_of set1)" "binary_codes (trace_of set2)"
    "\<forall>e \<in> set popped. prefix_free (trace_of e) \<and> binary_codes (trace_of e)"
    by (simp_all add: builder_inv_def)
  show "builder_inv (loop_body sf)"
    unfolding builder_inv_def body
    using dist pf by (auto simp: tr prefix_free_combine binary_codes_combine)
  have "set (all_keys (loop_body sf)) = set (all_keys (popped @ [set2, set1]))"
    unfolding body by (auto simp: tr)
  then show "set (all_keys (loop_body sf)) = set (all_keys sf)"
    by (subst (2) sf)
  have "length (loop_body sf) = length (popped @ [set2, set1]) - 1"
    unfolding body by simp
  then show "length (loop_body sf) = length sf - 1"
    by (subst (2) sf)
qed

lemma build_loop_inv:
  "builder_inv sf \<Longrightarrow>
     builder_inv (build_loop sf) \<and> set (all_keys (build_loop sf)) = set (all_keys sf)
     \<and> (2 \<le> length sf \<longrightarrow> length (build_loop sf) = 2)"
proof (induction sf rule: build_loop.induct)
  case (1 sf)
  show ?case
  proof (cases "2 < length sf")
    case True
    note body = loop_body_inv [OF True "1.prems"]
    from "1.IH" [OF True body(1)] body(2,3) True show ?thesis
      by (subst (1 2 3) build_loop.simps) simp
  next
    case False
    with "1.prems" show ?thesis
      by (subst (1 2 3) build_loop.simps) auto
  qed
qed

lemma final_trace_two:
  assumes "builder_inv sf" "length sf = 2"
  shows "final_trace sf
           = Inr (char_count ''0'' (trace_of (sf ! 0)) @ char_count ''1'' (trace_of (sf ! 1)))"
    and "all_keys sf = map fst (trace_of (sf ! 0)) @ map fst (trace_of (sf ! 1))"
    and "prefix_free (char_count ''0'' (trace_of (sf ! 0)) @ char_count ''1'' (trace_of (sf ! 1)))"
    and "binary_codes (char_count ''0'' (trace_of (sf ! 0)) @ char_count ''1'' (trace_of (sf ! 1)))"
proof -
  from assms(2) obtain e0 e1 where sf: "sf = [e0, e1]"
    by (cases sf; cases "tl sf") auto
  from assms(1) have dist: "distinct (map fst (trace_of e0) @ map fst (trace_of e1))"
    and pf: "prefix_free (trace_of e0)" "prefix_free (trace_of e1)"
    and bc: "binary_codes (trace_of e0)" "binary_codes (trace_of e1)"
    by (simp_all add: builder_inv_def sf)
  have "dict_or (char_count ''0'' (trace_of e0)) (char_count ''1'' (trace_of e1))
          = char_count ''0'' (trace_of e0) @ char_count ''1'' (trace_of e1)"
    using dist by (intro combine_traces) auto
  then show "final_trace sf
           = Inr (char_count ''0'' (trace_of (sf ! 0)) @ char_count ''1'' (trace_of (sf ! 1)))"
    by (simp add: final_trace_def sf)
  show "all_keys sf = map fst (trace_of (sf ! 0)) @ map fst (trace_of (sf ! 1))"
    by (simp add: sf)
  show "prefix_free (char_count ''0'' (trace_of (sf ! 0)) @ char_count ''1'' (trace_of (sf ! 1)))"
    using pf by (simp add: sf prefix_free_combine)
  show "binary_codes (char_count ''0'' (trace_of (sf ! 0)) @ char_count ''1'' (trace_of (sf ! 1)))"
    using bc by (simp add: sf binary_codes_combine)
qed

lemma builder_result:
  assumes "2 \<le> card (set w)"
  shows "\<exists>tr. final_trace (build_loop (init_sorted (count_frequency w))) = Inr tr
           \<and> distinct (map fst tr) \<and> set (map fst tr) = set w
           \<and> prefix_free tr \<and> binary_codes tr"
proof -
  let ?freq = "count_frequency w"
  let ?sf = "build_loop (init_sorted ?freq)"
  have init: "builder_inv (init_sorted ?freq)" "set (all_keys (init_sorted ?freq)) = set w"
    using builder_inv_init [OF count_frequency_keys(1) [of w]] count_frequency_keys(2) [of w]
    by simp_all
  have "2 \<le> length (init_sorted ?freq)"
    using assms by (simp add: init_sorted_def length_count_frequency)
  with build_loop_inv [OF init(1)] init(2)
  have inv: "builder_inv ?sf" and keys: "set (all_keys ?sf) = set w" and len: "length ?sf = 2"
    by simp_all
  note fin = final_trace_two [OF inv len]
  let ?tr = "char_count ''0'' (trace_of (?sf ! 0)) @ char_count ''1'' (trace_of (?sf ! 1))"
  have k: "map fst ?tr = all_keys ?sf"
    by (simp add: fin(2))
  have "distinct (map fst ?tr)"
    unfolding k using inv by (simp add: builder_inv_def)
  moreover have "set (map fst ?tr) = set w"
    unfolding k by (rule keys)
  ultimately show ?thesis
    using fin(1,3,4) by blast
qed

lemma compress_after_trace:
  assumes "final_trace (build_loop (init_sorted (count_frequency (worker (set_alt_in alt_in self0)))))
             = Inr tr"
  shows "trace (state_of (compress dumps alt_in self0)) = tr"
    and "frequency (state_of (compress dumps alt_in self0))
           = count_frequency (worker (set_alt_in alt_in self0))"
    and "worker (state_of (compress dumps alt_in self0)) = worker (set_alt_in alt_in self0)"
  using assms
  by (simp_all add: compress_def Let_def state_of_def split: sum.splits)

lemma loop_state_descending: "loop_state freq sf \<Longrightarrow> sorted (map (\<lambda>e. - freq_of e) sf)"
proof (induction rule: loop_state.induct)
  case start
  have "map (\<lambda>e. - freq_of e) (init_sorted freq)
          = map (\<lambda>x. - snd x) (sort_key (\<lambda>x. - snd x) freq)"
    by (simp add: init_sorted_def sorted_reverse_def freq_of_def comp_def)
  then show ?case
    by (simp only: sorted_sort_key)
next
  case (step sf)
  show ?case
    by (simp only: loop_body_def Let_def sorted_reverse_def sorted_sort_key)
qed

lemma loop_state_on_path: "loop_state freq sf \<Longrightarrow> build_loop sf = build_loop (init_sorted freq)"
proof (induction rule: loop_state.induct)
  case start
  show ?case by simp
next
  case (step sf)
  then show ?case
    by (subst (asm) build_loop.simps) simp
qed

section \<open>The bit packer\<close>

subsection \<open>Padding\<close>

lemma pad_loop_spec:
  "pad_loop encoded padding =
     (encoded @ replicate ((8 - length encoded mod 8) mod 8) CHR ''1'',
      padding + (8 - length encoded mod 8) mod 8)"
proof (induction encoded padding rule: pad_loop.induct)
  case (1 encoded padding)
  show ?case
  proof (cases "length encoded mod 8 = 0")
    case True
    then show ?thesis
      by (subst pad_loop.simps) simp
  next
    case False
    have step: "(8 - length encoded mod 8) mod 8 = Suc ((8 - Suc (length encoded) mod 8) mod 8)"
      using False by (simp add: mod_Suc) arith
    have "pad_loop encoded padding = pad_loop (encoded @ ''1'') (padding + 1)"
      using False by (subst pad_loop.simps) simp
    also have "\<dots> = ((encoded @ ''1'') @ replicate ((8 - length (encoded @ ''1'') mod 8) mod 8) CHR ''1'',
                      (padding + 1) + (8 - length (encoded @ ''1'') mod 8) mod 8)"
      using False by (intro "1.IH") simp
    finally show ?thesis
      by (simp add: step replicate_app_Cons_same)
  qed
qed

lemma pad_amount_le: "(8 - n mod 8) mod 8 \<le> (7 :: nat)"
proof -
  have "(8 - n mod 8) mod 8 < (8 :: nat)" by (rule mod_less_divisor) simp
  then show ?thesis by simp
qed

lemma pad_amount_fills: "(n + (8 - n mod 8) mod 8) mod 8 = (0 :: nat)"
proof -
  define r where "r = n mod 8"
  have r: "r < 8" by (simp add: r_def)
  have "(r + (8 - r) mod 8) mod 8 = 0"
  proof (cases "r = 0")
    case True
    then show ?thesis by simp
  next
    case False
    with r have "(8 - r) mod 8 = 8 - r" by simp
    with r show ?thesis by simp
  qed
  then show ?thesis
    unfolding r_def by (simp add: mod_add_left_eq)
qed

lemma pad_minimal:
  assumes "q < (8 - n mod 8) mod 8"
  shows "(n + q) mod 8 \<noteq> (0 :: nat)"
proof -
  define r where "r = n mod 8"
  have r: "r < 8" by (simp add: r_def)
  from assms have q: "q < (8 - r) mod 8" by (simp add: r_def)
  have "r \<noteq> 0"
    using q by (cases "r = 0") simp_all
  with r q have "0 < r + q" "r + q < 8" by simp_all
  then have "(r + q) mod 8 \<noteq> 0" by simp
  moreover have "(n + q) mod 8 = (r + q) mod 8"
    unfolding r_def by (simp add: mod_add_left_eq)
  ultimately show ?thesis by simp
qed

subsection \<open>Bits and bytes\<close>

lemma bits_value_snoc: "bits_value (s @ [c]) = 2 * bits_value s + bit_val c"
  by (simp add: bits_value_def)

lemma bits_value_bound: "bits_value s < 2 ^ length s"
proof (induction s rule: rev_induct)
  case Nil
  show ?case by (simp add: bits_value_def)
next
  case (snoc c s)
  have "bit_val c \<le> 1" by (simp add: bit_val_def)
  with snoc show ?case by (simp add: bits_value_snoc)
qed

lemma bin_digits_bit:
  "c = CHR ''0'' \<or> c = CHR ''1'' \<Longrightarrow> bin_digits (bit_val c) = [c]"
  by (subst bin_digits.simps) (auto simp: bit_val_def)

lemma bin_digits_double:
  assumes "0 < n" and "c = CHR ''0'' \<or> c = CHR ''1''"
  shows "bin_digits (2 * n + bit_val c) = bin_digits n @ [c]"
proof -
  have b: "bit_val c < 2" by (simp add: bit_val_def)
  then have "(2 * n + bit_val c) div 2 = n" "(2 * n + bit_val c) mod 2 = bit_val c"
    by simp_all
  moreover have "\<not> 2 * n + bit_val c < 2" using assms(1) by simp
  ultimately show ?thesis
    using assms(2) by (subst bin_digits.simps) (auto simp: bit_val_def)
qed

lemma zfill_bin_digits:
  assumes "s \<noteq> []" and "set s \<subseteq> {CHR ''0'', CHR ''1''}"
  shows "zfill (length s) (bin_digits (bits_value s)) = s"
  using assms
proof (induction s rule: rev_nonempty_induct)
  case (single c)
  then have "bin_digits (bits_value [c]) = [c]"
    using bin_digits_bit [of c] by (simp add: bits_value_def)
  then show ?case by (simp add: zfill_def)
next
  case (snoc c s)
  from snoc.prems have c: "c = CHR ''0'' \<or> c = CHR ''1''" and s: "set s \<subseteq> {CHR ''0'', CHR ''1''}"
    by auto
  note IH = snoc.IH [OF s]
  show ?case
  proof (cases "bits_value s = 0")
    case True
    from IH True have "replicate (length s - 1) CHR ''0'' @ ''0'' = s"
      using bin_digits_bit [of "CHR ''0''"] by (simp add: zfill_def bit_val_def)
    then have zeros: "replicate (length s) CHR ''0'' = s"
      using snoc.hyps by (cases s) (simp_all add: replicate_append_same)
    have "bin_digits (bits_value (s @ [c])) = [c]"
      using True c bin_digits_bit [of c] by (simp add: bits_value_snoc)
    then show ?thesis
      using zeros by (simp add: zfill_def)
  next
    case False
    then have "bin_digits (bits_value (s @ [c])) = bin_digits (bits_value s) @ [c]"
      using c by (simp add: bits_value_snoc bin_digits_double)
    then have "zfill (length (s @ [c])) (bin_digits (bits_value (s @ [c])))
             = zfill (length s) (bin_digits (bits_value s)) @ [c]"
      by (simp add: zfill_def)
    with IH show ?thesis by simp
  qed
qed

lemma int_base2_Inr:
  "int_base2 s = Inr n \<longleftrightarrow> s \<noteq> [] \<and> set s \<subseteq> {CHR ''0'', CHR ''1''} \<and> n = bits_value s"
  by (auto simp: int_base2_def)

lemma chunk_loop_Inr:
  "chunk_loop cs chunked = Inr r \<longleftrightarrow>
     (\<forall>c \<in> set cs. c \<noteq> [] \<and> set c \<subseteq> {CHR ''0'', CHR ''1''})
     \<and> r = chunked @ map bits_value cs"
proof (induction cs arbitrary: chunked)
  case Nil
  show ?case by auto
next
  case (Cons c cs)
  show ?case
  proof (cases "int_base2 c")
    case (Inl e)
    moreover from Inl have "\<not> (c \<noteq> [] \<and> set c \<subseteq> {CHR ''0'', CHR ''1''})"
      using int_base2_Inr [of c "bits_value c"] by auto
    ultimately show ?thesis by auto
  next
    case (Inr n)
    then have "c \<noteq> [] \<and> set c \<subseteq> {CHR ''0'', CHR ''1''} \<and> n = bits_value c"
      by (simp add: int_base2_Inr)
    with Inr Cons.IH [of "chunked @ [n]"] show ?thesis by auto
  qed
qed

lemma chunks_concat: "concat (chunks encoded) = encoded"
proof (induction encoded rule: chunks.induct)
  case (1 encoded)
  show ?case
  proof (cases "encoded = []")
    case True
    then show ?thesis by (subst chunks.simps) simp
  next
    case False
    with "1.IH" show ?thesis by (subst chunks.simps) simp
  qed
qed

lemma chunks_length:
  "length encoded mod 8 = 0 \<Longrightarrow> c \<in> set (chunks encoded) \<Longrightarrow> length c = 8"
proof (induction encoded rule: chunks.induct)
  case (1 encoded)
  show ?case
  proof (cases "encoded = []")
    case True
    with "1.prems" show ?thesis by (subst (asm) chunks.simps) simp
  next
    case False
    with "1.prems"(1) have len: "8 \<le> length encoded"
      by (cases "length encoded < 8") auto
    then have rest: "length (drop 8 encoded) mod 8 = 0"
      using "1.prems"(1) le_mod_geq [OF len] by simp
    from "1.prems"(2) False have "c = take 8 encoded \<or> c \<in> set (chunks (drop 8 encoded))"
      by (subst (asm) chunks.simps) simp
    then show ?thesis
      using "1.IH" [OF False rest] len by auto
  qed
qed

lemma chunks_subset:
  assumes "c \<in> set (chunks encoded)"
  shows "set c \<subseteq> set encoded"
proof -
  have "set (concat (chunks encoded)) = (\<Union>x \<in> set (chunks encoded). set x)"
    by simp
  then have "set encoded = (\<Union>x \<in> set (chunks encoded). set x)"
    by (simp only: chunks_concat)
  with assms show ?thesis by auto
qed

lemma bits_of_values:
  assumes "\<forall>c \<in> set cs. length c = 8 \<and> set c \<subseteq> {CHR ''0'', CHR ''1''}"
  shows "bits_of (map bits_value cs) = concat cs"
proof -
  have "zfill 8 (bin_digits (bits_value c)) = c" if "c \<in> set cs" for c
  proof -
    from that assms have "length c = 8" "set c \<subseteq> {CHR ''0'', CHR ''1''}" by auto
    moreover from this have "c \<noteq> []" by auto
    ultimately show ?thesis using zfill_bin_digits [of c] by simp
  qed
  then have "map (\<lambda>c. zfill 8 (bin_digits (bits_value c))) cs = cs"
    by (simp add: map_idI)
  then show ?thesis
    by (simp add: bits_of_def comp_def)
qed

lemma pad_loop_padding_of:
  "pad_loop encoded 0 = (encoded @ replicate (padding_of encoded) CHR ''1'', padding_of encoded)"
  by (simp add: pad_loop_spec padding_of_def)

lemma padded_length: "length (encoded @ replicate (padding_of encoded) c) mod 8 = 0"
  by (simp add: padding_of_def pad_amount_fills)

lemma bit_packer_Inr:
  assumes "bit_packer tr w = Inr byte_convert"
  shows "\<exists>encoded. encode tr w = Inr encoded
           \<and> byte_convert = padding_of encoded
               # map bits_value (chunks (encoded @ replicate (padding_of encoded) CHR ''1''))
           \<and> bits_of (tl byte_convert) = encoded @ replicate (padding_of encoded) CHR ''1''
           \<and> (\<forall>b \<in> set byte_convert. b < 256)"
proof -
  from assms obtain encoded where enc: "encode tr w = Inr encoded"
    by (cases "encode tr w") (simp_all add: bit_packer_def)
  let ?padded = "encoded @ replicate (padding_of encoded) CHR ''1''"
  from assms enc obtain chunked where
    ch: "chunk_loop (chunks ?padded) [padding_of encoded] = Inr chunked"
    and ba: "bytearray_of chunked = Inr byte_convert"
    by (cases "chunk_loop (chunks ?padded) [padding_of encoded]")
       (simp_all add: bit_packer_def pad_loop_padding_of)
  from ch have ok: "\<forall>c \<in> set (chunks ?padded). c \<noteq> [] \<and> set c \<subseteq> {CHR ''0'', CHR ''1''}"
    and chunked: "chunked = [padding_of encoded] @ map bits_value (chunks ?padded)"
    by (simp_all add: chunk_loop_Inr)
  from ba have bc: "byte_convert = chunked" and small: "\<forall>b \<in> set chunked. b < 256"
    by (auto simp: bytearray_of_def split: if_splits)
  have "\<forall>c \<in> set (chunks ?padded). length c = 8 \<and> set c \<subseteq> {CHR ''0'', CHR ''1''}"
    using ok chunks_length [OF padded_length] by blast
  then have "bits_of (map bits_value (chunks ?padded)) = ?padded"
    using bits_of_values [of "chunks ?padded"] by (simp add: chunks_concat)
  with enc bc chunked small show ?thesis
    by simp
qed

lemma bit_packer_succeeds:
  assumes enc: "encode tr w = Inr encoded" and bin: "set encoded \<subseteq> {CHR ''0'', CHR ''1''}"
  shows "\<exists>byte_convert. bit_packer tr w = Inr byte_convert"
proof -
  let ?padded = "encoded @ replicate (padding_of encoded) CHR ''1''"
  have binp: "set ?padded \<subseteq> {CHR ''0'', CHR ''1''}"
    using bin by auto
  have chunks_ok: "c \<noteq> [] \<and> set c \<subseteq> {CHR ''0'', CHR ''1''} \<and> length c = 8"
    if "c \<in> set (chunks ?padded)" for c
    using that chunks_length [OF padded_length that] chunks_subset [OF that] binp by auto
  then have ch: "chunk_loop (chunks ?padded) [padding_of encoded]
               = Inr ([padding_of encoded] @ map bits_value (chunks ?padded))"
    by (simp add: chunk_loop_Inr)
  have "bits_value c < 256" if "c \<in> set (chunks ?padded)" for c
    using bits_value_bound [of c] chunks_ok [OF that] by simp
  moreover have "padding_of encoded < 256"
    using pad_amount_le [of "length encoded"] by (simp add: padding_of_def)
  ultimately have "bytearray_of ([padding_of encoded] @ map bits_value (chunks ?padded))
                 = Inr ([padding_of encoded] @ map bits_value (chunks ?padded))"
    by (auto simp: bytearray_of_def)
  with enc ch show ?thesis
    by (simp add: bit_packer_def pad_loop_padding_of)
qed

lemma encode_succeeds: "set w \<subseteq> fst ` set tr \<Longrightarrow> \<exists>encoded. encode tr w = Inr encoded"
proof (induction w)
  case Nil
  show ?case by simp
next
  case (Cons char w)
  then obtain rest where "encode tr w = Inr rest" by auto
  moreover from Cons.prems obtain code where "map_of tr char = Some code"
    by (cases "map_of tr char") (auto simp: map_of_eq_None_iff)
  ultimately show ?case by simp
qed

lemma encode_binary:
  "binary_codes tr \<Longrightarrow> encode tr w = Inr encoded \<Longrightarrow> set encoded \<subseteq> {CHR ''0'', CHR ''1''}"
proof (induction w arbitrary: encoded)
  case Nil
  then show ?case by simp
next
  case (Cons char w)
  from Cons.prems(2) obtain code rest where
    code: "map_of tr char = Some code" and rest: "encode tr w = Inr rest"
    and enc: "encoded = code @ rest"
    by (auto split: option.splits sum.splits)
  from code have "(char, code) \<in> set tr" by (rule map_of_SomeD)
  with Cons.prems(1) have "set code \<subseteq> {CHR ''0'', CHR ''1''}"
    by (auto simp: binary_codes_def)
  with Cons.IH [OF Cons.prems(1) rest] enc show ?case by simp
qed

section \<open>Frames written by compress\<close>

subsection \<open>The stages of compress\<close>

lemma to_bytes2_Inr: "to_bytes2 n = Inr bs \<longleftrightarrow> n < 65536 \<and> bs = [n div 256, n mod 256]"
  by (auto simp: to_bytes2_def)

lemma frame_assemble_Inr:
  "frame_assemble dumps t byte_convert = Inr out \<longleftrightarrow>
     length (dumps t) < 65536
     \<and> out = [length (dumps t) div 256, length (dumps t) mod 256] @ dumps t @ byte_convert"
  by (auto simp: frame_assemble_def Let_def to_bytes2_def)

lemma compress_Inr:
  assumes "compress dumps alt_in self0 = Inr s"
  shows "\<exists>tr byte_convert.
           final_trace (build_loop (init_sorted (count_frequency (worker (set_alt_in alt_in self0)))))
             = Inr tr
         \<and> bit_packer tr (worker (set_alt_in alt_in self0)) = Inr byte_convert
         \<and> length (dumps (tree_tool s)) < 65536
         \<and> worker s = worker (set_alt_in alt_in self0)
         \<and> frequency s = count_frequency (worker (set_alt_in alt_in self0))
         \<and> tree_tool s = Branch (map fst (build_loop (init_sorted
                               (count_frequency (worker (set_alt_in alt_in self0))))))
         \<and> trace s = tr
         \<and> output_buf s = [length (dumps (tree_tool s)) div 256,
                              length (dumps (tree_tool s)) mod 256]
                             @ dumps (tree_tool s) @ byte_convert"
  using assms
  by (auto simp: compress_def Let_def frame_assemble_Inr split: sum.splits)

lemma compress_stages:
  assumes tr: "final_trace (build_loop (init_sorted (count_frequency (worker (set_alt_in alt_in self0)))))
             = Inr tr"
    and bp: "bit_packer tr (worker (set_alt_in alt_in self0)) = Inr byte_convert"
  shows "compress dumps alt_in self0 =
           (case frame_assemble dumps
                   (Branch (map fst (build_loop (init_sorted
                      (count_frequency (worker (set_alt_in alt_in self0)))))))
                   byte_convert of
              Inl e \<Rightarrow> Inl (e, (set_alt_in alt_in self0)
                     \<lparr>frequency := count_frequency (worker (set_alt_in alt_in self0)),
                      tree_tool := Branch (map fst (build_loop (init_sorted
                               (count_frequency (worker (set_alt_in alt_in self0)))))),
                      trace := tr\<rparr>)
            | Inr out \<Rightarrow> Inr ((set_alt_in alt_in self0)
                     \<lparr>frequency := count_frequency (worker (set_alt_in alt_in self0)),
                      tree_tool := Branch (map fst (build_loop (init_sorted
                               (count_frequency (worker (set_alt_in alt_in self0)))))),
                      trace := tr, output_buf := out\<rparr>))"
  using assms by (simp add: compress_def Let_def)

lemma packer_runs:
  assumes "2 \<le> card (set w)"
  shows "\<exists>tr encoded byte_convert.
           final_trace (build_loop (init_sorted (count_frequency w))) = Inr tr
         \<and> encode tr w = Inr encoded
         \<and> bit_packer tr w = Inr byte_convert"
proof -
  from builder_result [OF assms] obtain tr where
    tr: "final_trace (build_loop (init_sorted (count_frequency w))) = Inr tr"
    and keys: "set (map fst tr) = set w" and bin: "binary_codes tr"
    by blast
  from keys obtain encoded where enc: "encode tr w = Inr encoded"
    using encode_succeeds [of w tr] by auto
  from bit_packer_succeeds [OF enc encode_binary [OF bin enc]] tr enc show ?thesis
    by blast
qed

subsection \<open>Reading the parts of a frame back\<close>

lemma from_bytes_two: "n < 65536 \<Longrightarrow> from_bytes [n div 256, n mod 256] = n"
  by (simp add: from_bytes_def)

lemma frame_parts:
  assumes "length blob = n"
  shows "slice 0 2 ([a, b] @ blob @ p # packed) = [a, b]"
    and "slice 2 (n + 2) ([a, b] @ blob @ p # packed) = blob"
    and "([a, b] @ blob @ p # packed) ! (n + 2) = p"
    and "drop (n + 3) ([a, b] @ blob @ p # packed) = packed"
    and "n + 2 < length ([a, b] @ blob @ p # packed)"
proof -
  have three: "n + 3 = Suc (Suc (Suc n))" by simp
  show "slice 0 2 ([a, b] @ blob @ p # packed) = [a, b]"
    by (simp add: slice_def)
  show "slice 2 (n + 2) ([a, b] @ blob @ p # packed) = blob"
    using assms by (simp add: slice_def)
  show "([a, b] @ blob @ p # packed) ! (n + 2) = p"
    using assms by (simp add: nth_append)
  show "drop (n + 3) ([a, b] @ blob @ p # packed) = packed"
    unfolding three using assms by simp
  show "n + 2 < length ([a, b] @ blob @ p # packed)"
    using assms by simp
qed

lemma compress_writes:
  assumes "compress dumps alt_in self0 = Inr s"
  shows "\<exists>encoded.
           encode (trace s) (worker s) = Inr encoded
         \<and> length (dumps (tree_tool s)) < 65536
         \<and> output_buf s
             = [length (dumps (tree_tool s)) div 256, length (dumps (tree_tool s)) mod 256]
               @ dumps (tree_tool s)
               @ padding_of encoded
                 # map bits_value (chunks (encoded @ replicate (padding_of encoded) CHR ''1''))
         \<and> bits_of (map bits_value (chunks (encoded @ replicate (padding_of encoded) CHR ''1'')))
             = encoded @ replicate (padding_of encoded) CHR ''1''"
proof -
  let ?w = "worker (set_alt_in alt_in self0)"
  let ?n = "length (dumps (tree_tool s))"
  from compress_Inr [OF assms] obtain tr byte_convert where
    bp: "bit_packer tr ?w = Inr byte_convert"
    and n: "?n < 65536"
    and tr: "trace s = tr" and w: "worker s = ?w"
    and out: "output_buf s = [?n div 256, ?n mod 256] @ dumps (tree_tool s) @ byte_convert"
    by blast
  from bit_packer_Inr [OF bp] obtain encoded where
    enc: "encode tr ?w = Inr encoded"
    and bc: "byte_convert = padding_of encoded
               # map bits_value (chunks (encoded @ replicate (padding_of encoded) CHR ''1''))"
    and bits: "bits_of (tl byte_convert) = encoded @ replicate (padding_of encoded) CHR ''1''"
    by blast
  from enc n out bc bits show ?thesis
    unfolding tr w by auto
qed

section \<open>Frames read by decompress\<close>

lemma split_frame_written:
  assumes "length blob < 65536"
  shows "split_frame loads
           ([length blob div 256, length blob mod 256] @ blob @ p # packed)
         = (case loads blob of None \<Rightarrow> Inl PickleError | Some t \<Rightarrow> Inr (t, p, packed))"
proof -
  note parts = frame_parts [of blob "length blob" "length blob div 256" "length blob mod 256"
      p packed, OF refl]
  have "from_bytes (slice 0 2 ([length blob div 256, length blob mod 256] @ blob @ p # packed))
          = length blob"
    unfolding parts(1) by (rule from_bytes_two [OF assms])
  then show ?thesis
    unfolding split_frame_def Let_def
    using parts(2-5) by (simp split: option.splits)
qed

lemma decompress_no_bits:
  assumes "split_frame loads (worker (set_alt_in alt_in self0)) = Inr (t, 0, packed)"
  shows "decompress loads alt_in self0 = Inr ((set_alt_in alt_in self0)\<lparr>output_buf := []\<rparr>)"
  using assms
  by (simp add: decompress_def slice_to_neg_def bytearray_of_def decode_loop.simps [of _ "[]"])

lemma compress_Inr_nonempty:
  assumes "compress dumps None (huffman_init B) = Inr s"
  shows "B \<noteq> []"
proof
  assume "B = []"
  then have "final_trace (build_loop (init_sorted (count_frequency
               (worker (set_alt_in None (huffman_init B))))))
             = Inl IndexError"
    by (simp add: set_alt_in_def huffman_init_def new_worker_def count_frequency_def
        init_sorted_def sorted_reverse_def build_loop.simps [of "[]"] final_trace_def)
  with compress_Inr [OF assms] show False by auto
qed

section \<open>Decoding what was encoded\<close>

lemma worker_init [simp]:
  "set_alt_in None self = self"
  "worker (huffman_init B) = B"
  by (simp_all add: set_alt_in_def huffman_init_def new_worker_def)

lemma reaches_pair:
  "reaches (Branch [t0, t1]) (CHR ''0'' # c) k = reaches t0 c k"
  "reaches (Branch [t0, t1]) (CHR ''1'' # c) k = reaches t1 c k"
  by (simp_all add: bit_val_def)

lemma paths_combine:
  assumes "\<forall>(k, c) \<in> set tr0. reaches t0 c k" and "\<forall>(k, c) \<in> set tr1. reaches t1 c k"
  shows "\<forall>(k, c) \<in> set (char_count ''0'' tr0 @ char_count ''1'' tr1).
           reaches (Branch [t0, t1]) c k"
  using assms by (auto simp: set_char_count bit_val_def)

lemma paths_inv_init: "paths_inv (init_sorted freq)"
  by (auto simp: paths_inv_def init_sorted_def trace_of_def)

lemma loop_body_paths:
  assumes len: "2 < length sf" and inv: "builder_inv sf" and paths: "paths_inv sf"
  shows "paths_inv (loop_body sf)"
proof -
  define set1 where "set1 = last sf"
  define set2 where "set2 = last (butlast sf)"
  define popped where "popped = butlast (butlast sf)"
  have sf: "sf = popped @ [set2, set1]"
    unfolding set1_def set2_def popped_def using len by (intro last_two) simp
  have body: "loop_body sf = sorted_reverse freq_of (popped @ [new_branch set1 set2])"
    by (simp add: loop_body_def Let_def set1_def set2_def popped_def)
  have inv': "builder_inv (popped @ [set2, set1])"
    by (subst sf [symmetric]) (rule inv)
  then have dist: "distinct (all_keys popped @ map fst (trace_of set2) @ map fst (trace_of set1))"
    by (simp add: builder_inv_def)
  have tr: "trace_of (new_branch set1 set2)
          = char_count ''0'' (trace_of set1) @ char_count ''1'' (trace_of set2)"
    unfolding trace_of_new_branch using dist by (intro combine_traces) auto
  have paths': "paths_inv (popped @ [set2, set1])"
    by (subst sf [symmetric]) (rule paths)
  then have p: "\<forall>(k, c) \<in> set (trace_of set1). reaches (fst set1) c k"
    "\<forall>(k, c) \<in> set (trace_of set2). reaches (fst set2) c k"
    "\<forall>e \<in> set popped. \<forall>(k, c) \<in> set (trace_of e). reaches (fst e) c k"
    by (simp_all add: paths_inv_def)
  have "\<forall>(k, c) \<in> set (trace_of (new_branch set1 set2)). reaches (fst (new_branch set1 set2)) c k"
    unfolding tr using paths_combine [OF p(1,2)] by (simp add: new_branch_def)
  with p(3) show ?thesis
    unfolding body paths_inv_def by simp
qed

lemma build_loop_paths:
  "builder_inv sf \<Longrightarrow> paths_inv sf \<Longrightarrow> paths_inv (build_loop sf)"
proof (induction sf rule: build_loop.induct)
  case (1 sf)
  show ?case
  proof (cases "2 < length sf")
    case True
    from "1.IH" [OF True loop_body_inv(1) [OF True "1.prems"(1)]
        loop_body_paths [OF True "1.prems"]]
    show ?thesis
      using True by (subst build_loop.simps) simp
  next
    case False
    with "1.prems" show ?thesis
      by (subst build_loop.simps) simp
  qed
qed

lemma recursion_follows:
  "reaches (Branch bs) code k \<Longrightarrow> recursion (Branch bs) (code @ rest) = Inr (k, rest)"
proof (induction code arbitrary: bs)
  case Nil
  then show ?case by simp
next
  case (Cons b code)
  from Cons.prems have lt: "bit_val b < length bs" and r: "reaches (bs ! bit_val b) code k"
    by simp_all
  show ?case
  proof (cases "bs ! bit_val b")
    case (Leaf x)
    with r have "code = []" "x = k"
      by (cases code; simp)+
    with lt Leaf show ?thesis by simp
  next
    case (Branch sub)
    with r Cons.IH [of sub] lt show ?thesis by simp
  qed
qed

lemma decode_loop_encoded:
  assumes "\<forall>(k, c) \<in> set tr. reaches (Branch bs) c k"
  shows "encode tr w = Inr encoded \<Longrightarrow>
           decode_loop (Branch bs) encoded decoded = Inr (decoded @ w)"
proof (induction w arbitrary: encoded decoded)
  case Nil
  then show ?case by (simp add: decode_loop.simps [of _ "[]"])
next
  case (Cons char w)
  from Cons.prems obtain code rest where
    code: "map_of tr char = Some code" and rest: "encode tr w = Inr rest"
    and enc: "encoded = code @ rest"
    by (auto split: option.splits sum.splits)
  from code have "(char, code) \<in> set tr" by (rule map_of_SomeD)
  with assms have r: "reaches (Branch bs) code char" by auto
  then have ne: "code \<noteq> []" by auto
  have "decode_loop (Branch bs) (code @ rest) decoded
          = decode_loop (Branch bs) rest (decoded @ [char])"
    using ne recursion_follows [OF r, of rest]
    by (subst decode_loop.simps) simp
  with Cons.IH [OF rest, of "decoded @ [char]"] enc show ?case by simp
qed


lemma built_pair:
  assumes "final_trace (build_loop (init_sorted freq)) = Inr tr" and "distinct (map fst freq)"
  shows "builder_inv (build_loop (init_sorted freq))"
    and "paths_inv (build_loop (init_sorted freq))"
    and "length (build_loop (init_sorted freq)) = 2"
proof -
  note init = builder_inv_init(1) [OF assms(2)]
  note inv = build_loop_inv [OF init]
  show "builder_inv (build_loop (init_sorted freq))"
    using inv by simp
  show "paths_inv (build_loop (init_sorted freq))"
    by (rule build_loop_paths [OF init paths_inv_init])
  have "2 \<le> length (init_sorted freq)"
  proof (rule ccontr)
    assume "\<not> 2 \<le> length (init_sorted freq)"
    then have "build_loop (init_sorted freq) = init_sorted freq" "length (init_sorted freq) < 2"
      by (simp_all add: build_loop.simps [of "init_sorted freq"])
    with assms(1) show False
      by (simp add: final_trace_def)
  qed
  with inv show "length (build_loop (init_sorted freq)) = 2"
    by simp
qed

lemma final_paths:
  assumes "builder_inv sf" and "paths_inv sf" and "length sf = 2" and "final_trace sf = Inr tr"
  shows "\<forall>(k, c) \<in> set tr. reaches (Branch (map fst sf)) c k"
proof -
  from assms(3) obtain e0 e1 where sf: "sf = [e0, e1]"
    by (cases sf; cases "tl sf") auto
  from final_trace_two(1) [OF assms(1,3)] assms(4)
  have tr: "tr = char_count ''0'' (trace_of e0) @ char_count ''1'' (trace_of e1)"
    by (simp add: sf)
  from assms(2) have "\<forall>(k, c) \<in> set (trace_of e0). reaches (fst e0) c k"
    "\<forall>(k, c) \<in> set (trace_of e1). reaches (fst e1) c k"
    by (simp_all add: paths_inv_def sf)
  from paths_combine [OF this] show ?thesis
    by (simp add: tr sf)
qed

lemma strip_padding:
  "0 < padding_of encoded \<Longrightarrow>
     slice_to_neg (padding_of encoded) (encoded @ replicate (padding_of encoded) c) = encoded"
  by (simp add: slice_to_neg_def)

text \<open>
  With at least one filler bit, the round trip gives the buffer back, for every pickler
  and unpickler that give the tree back: the codes of the trace dictionary are paths
  of the tree, and \<open>bit_string[:-padding]\<close> removes the filler bits and nothing else.
\<close>

lemma roundtrip_with_padding:
  assumes comp: "compress dumps None (huffman_init B) = Inr s"
    and enc: "encode (trace s) (worker s) = Inr encoded"
    and pad: "length encoded mod 8 \<noteq> 0"
    and loads: "loads (dumps (tree_tool s)) = Some (tree_tool s)"
    and bytes: "\<forall>b \<in> set B. b < 256"
  shows "decompress loads None (huffman_init (output_buf s))
           = Inr ((huffman_init (output_buf s))\<lparr>output_buf := B\<rparr>)"
proof -
  let ?sf = "build_loop (init_sorted (count_frequency B))"
  let ?n = "length (dumps (tree_tool s))"
  let ?p = "padding_of encoded"
  let ?packed = "map bits_value (chunks (encoded @ replicate ?p CHR ''1''))"
  from compress_Inr [OF comp] obtain tr where
    tr: "final_trace ?sf = Inr tr" and w: "worker s = B"
    and tree: "tree_tool s = Branch (map fst ?sf)" and trace: "trace s = tr"
    by auto
  note built = built_pair [OF tr count_frequency_keys(1)]
  from final_paths [OF built tr] have paths: "\<forall>(k, c) \<in> set tr. reaches (tree_tool s) c k"
    by (simp add: tree)
  from compress_writes [OF comp] enc have n: "?n < 65536"
    and out: "output_buf s = [?n div 256, ?n mod 256] @ dumps (tree_tool s) @ ?p # ?packed"
    and bits: "bits_of ?packed = encoded @ replicate ?p CHR ''1''"
    by auto
  have split: "split_frame loads (output_buf s) = Inr (tree_tool s, ?p, ?packed)"
    by (subst out) (simp add: split_frame_written [OF n] loads del: append.simps)
  from pad have p: "0 < ?p"
    by (simp add: padding_of_def)
  have dec: "decode_loop (tree_tool s) encoded [] = Inr B"
    using decode_loop_encoded [of tr "map fst ?sf" B encoded "[]"] paths enc
    by (simp add: tree trace w)
  have ba: "bytearray_of B = Inr B"
    using bytes by (simp add: bytearray_of_def)
  show ?thesis
    by (simp add: decompress_def split bits strip_padding [OF p] dec ba)
qed

section \<open>Two buffers worked through\<close>

text \<open>
  The stages of \<open>compress\<close> on \<open>b"abcabcabc"\<close> (15 code bits, one filler bit) and on
  \<open>b"abababab"\<close> (8 code bits, no filler bit), with \<open>tree_dumps\<close> for the pickler.
\<close>

lemma bit_packer_steps:
  assumes "encode tr w = Inr encoded0"
    and "pad_loop encoded0 0 = (encoded, padding)"
    and "chunk_loop (chunks encoded) [padding] = Inr chunked"
    and "bytearray_of chunked = Inr byte_convert"
  shows "bit_packer tr w = Inr byte_convert"
  using assms by (simp add: bit_packer_def)

lemma abc_freq: "count_frequency [97, 98, 99, 97, 98, 99, 97, 98, 99] = [(97, 3), (98, 3), (99, 3)]"
  by code_simp

lemma abc_built:
  "build_loop (init_sorted [(97, 3), (98, 3), (99, 3)])
     = [(Branch [Leaf 99, Leaf 98], 6, [(99, ''0''), (98, ''1'')]), (Leaf 97, 3, [(97, [])])]"
  by code_simp

lemma abc_trace:
  "final_trace [(Branch [Leaf 99, Leaf 98], 6, [(99, ''0''), (98, ''1'')]), (Leaf 97, 3, [(97, [])])]
     = Inr [(99, ''00''), (98, ''01''), (97, ''1'')]"
  by code_simp

lemma abc_encoded:
  "encode [(99, ''00''), (98, ''01''), (97, ''1'')] [97, 98, 99, 97, 98, 99, 97, 98, 99]
     = Inr ''101001010010100''"
  by code_simp

lemma abc_packed:
  "bit_packer [(99, ''00''), (98, ''01''), (97, ''1'')] [97, 98, 99, 97, 98, 99, 97, 98, 99]
     = Inr [1, 165, 41]"
proof (rule bit_packer_steps)
  show "encode [(99, ''00''), (98, ''01''), (97, ''1'')] [97, 98, 99, 97, 98, 99, 97, 98, 99]
          = Inr ''101001010010100''"
    by (rule abc_encoded)
  show "pad_loop ''101001010010100'' 0 = (''1010010100101001'', 1)"
    by code_simp
  show "chunk_loop (chunks ''1010010100101001'') [1] = Inr [1, 165, 41]"
    by code_simp
  show "bytearray_of [1, 165, 41] = Inr [1, 165, 41]"
    by (simp add: bytearray_of_def)
qed

lemma abc_compress:
  "compress tree_dumps None (huffman_init [97, 98, 99, 97, 98, 99, 97, 98, 99]) =
     Inr \<lparr>worker = [97, 98, 99, 97, 98, 99, 97, 98, 99],
          output_buf = [0, 10, 1, 1, 0, 99, 0, 98, 2, 0, 97, 2, 1, 165, 41],
          frequency = [(97, 3), (98, 3), (99, 3)],
          tree_tool = Branch [Branch [Leaf 99, Leaf 98], Leaf 97],
          trace = [(99, ''00''), (98, ''01''), (97, ''1'')]\<rparr>"
proof -
  have tr: "final_trace (build_loop (init_sorted (count_frequency
              (worker (set_alt_in None (huffman_init [97, 98, 99, 97, 98, 99, 97, 98, 99]))))))
            = Inr [(99, ''00''), (98, ''01''), (97, ''1'')]"
    by (simp only: worker_init abc_freq abc_built abc_trace)
  have bp: "bit_packer [(99, ''00''), (98, ''01''), (97, ''1'')]
              (worker (set_alt_in None (huffman_init [97, 98, 99, 97, 98, 99, 97, 98, 99])))
            = Inr [1, 165, 41]"
    by (simp only: worker_init abc_packed)
  show ?thesis
    unfolding compress_stages [OF tr bp] worker_init abc_freq abc_built
    by (simp add: frame_assemble_def to_bytes2_def huffman_init_def new_worker_def)
qed

lemma ab_freq: "count_frequency [97, 98, 97, 98, 97, 98, 97, 98] = [(97, 4), (98, 4)]"
  by code_simp

lemma ab_built:
  "build_loop (init_sorted [(97, 4), (98, 4)])
     = [(Leaf 97, 4, [(97, [])]), (Leaf 98, 4, [(98, [])])]"
  by code_simp

lemma ab_trace:
  "final_trace [(Leaf 97, 4, [(97, [])]), (Leaf 98, 4, [(98, [])])]
     = Inr [(97, ''0''), (98, ''1'')]"
  by code_simp

lemma ab_encoded:
  "encode [(97, ''0''), (98, ''1'')] [97, 98, 97, 98, 97, 98, 97, 98] = Inr ''01010101''"
  by code_simp

lemma ab_packed:
  "bit_packer [(97, ''0''), (98, ''1'')] [97, 98, 97, 98, 97, 98, 97, 98] = Inr [0, 85]"
proof (rule bit_packer_steps)
  show "encode [(97, ''0''), (98, ''1'')] [97, 98, 97, 98, 97, 98, 97, 98] = Inr ''01010101''"
    by (rule ab_encoded)
  show "pad_loop ''01010101'' 0 = (''01010101'', 0)"
    by code_simp
  show "chunk_loop (chunks ''01010101'') [0] = Inr [0, 85]"
    by code_simp
  show "bytearray_of [0, 85] = Inr [0, 85]"
    by (simp add: bytearray_of_def)
qed

lemma ab_compress:
  "compress tree_dumps None (huffman_init [97, 98, 97, 98, 97, 98, 97, 98]) =
     Inr \<lparr>worker = [97, 98, 97, 98, 97, 98, 97, 98],
          output_buf = [0, 6, 1, 0, 97, 0, 98, 2, 0, 85],
          frequency = [(97, 4), (98, 4)],
          tree_tool = Branch [Leaf 97, Leaf 98],
          trace = [(97, ''0''), (98, ''1'')]\<rparr>"
proof -
  have tr: "final_trace (build_loop (init_sorted (count_frequency
              (worker (set_alt_in None (huffman_init [97, 98, 97, 98, 97, 98, 97, 98]))))))
            = Inr [(97, ''0''), (98, ''1'')]"
    by (simp only: worker_init ab_freq ab_built ab_trace)
  have bp: "bit_packer [(97, ''0''), (98, ''1'')]
              (worker (set_alt_in None (huffman_init [97, 98, 97, 98, 97, 98, 97, 98])))
            = Inr [0, 85]"
    by (simp only: worker_init ab_packed)
  show ?thesis
    unfolding compress_stages [OF tr bp] worker_init ab_freq ab_built
    by (simp add: frame_assemble_def to_bytes2_def huffman_init_def new_worker_def)
qed

lemma ab_loads: "tree_loads (tree_dumps (Branch [Leaf 97, Leaf 98])) = Some (Branch [Leaf 97, Leaf 98])"
  by code_simp

section \<open>The properties\<close>

text \<open>
  C1. A buffer with at least two distinct byte values is to decompress, from its frame,
  to itself. It does not when the encoded bit string fills whole bytes: the padding
  count is then 0, \<open>decompress\<close> strips the padding with \<open>bit_string[:-0]\<close>, which is
  the empty string, and the output is empty, while the buffer is not. This holds for
  every pickler and unpickler that read the tree back.
\<close>

theorem roundtrip_lost_without_padding:
  assumes "compress dumps None (huffman_init B) = Inr s"
    and "encode (trace s) (worker s) = Inr encoded"
    and "length encoded mod 8 = 0"
    and "loads (dumps (tree_tool s)) = Some t"
  shows "decompress loads None (huffman_init (output_buf s))
           = Inr ((huffman_init (output_buf s))\<lparr>output_buf := []\<rparr>)
         \<and> B \<noteq> []"
proof -
  let ?n = "length (dumps (tree_tool s))"
  let ?packed = "map bits_value (chunks (encoded @ replicate (padding_of encoded) CHR ''1''))"
  from compress_writes [OF assms(1)] assms(2) have n: "?n < 65536"
    and out: "output_buf s = [?n div 256, ?n mod 256] @ dumps (tree_tool s)
                @ padding_of encoded # ?packed"
    by auto
  from assms(3) have p: "padding_of encoded = 0"
    by (simp add: padding_of_def)
  have self: "set_alt_in None (huffman_init (output_buf s)) = huffman_init (output_buf s)"
    "worker (huffman_init (output_buf s)) = output_buf s"
    by (simp_all add: set_alt_in_def huffman_init_def new_worker_def)
  have "split_frame loads (output_buf s) = Inr (t, 0, ?packed)"
    by (subst out) (simp add: split_frame_written [OF n] assms(4) p del: append.simps)
  then have "split_frame loads (worker (set_alt_in None (huffman_init (output_buf s))))
               = Inr (t, 0, ?packed)"
    by (simp only: self)
  from decompress_no_bits [OF this] compress_Inr_nonempty [OF assms(1)] show ?thesis
    by (simp only: self simp_thms)
qed

theorem roundtrip_lost_without_padding_witness:
  "\<exists>s. compress tree_dumps None (huffman_init [97, 98, 97, 98, 97, 98, 97, 98]) = Inr s
      \<and> encode (trace s) (worker s) = Inr ''01010101''
      \<and> length ''01010101'' mod 8 = 0
      \<and> tree_loads (tree_dumps (tree_tool s)) = Some (Branch [Leaf 97, Leaf 98])
      \<and> output_buf s = [0, 6, 1, 0, 97, 0, 98, 2, 0, 85]
      \<and> decompress tree_loads None (huffman_init (output_buf s))
          = Inr ((huffman_init (output_buf s))\<lparr>output_buf := []\<rparr>)"
proof -
  define s where "s =
     \<lparr>worker = [97, 98, 97, 98, 97, 98, 97, 98],
      output_buf = [0, 6, 1, 0, 97, 0, 98, 2, 0, 85],
      frequency = [(97, 4), (98, 4)],
      tree_tool = Branch [Leaf 97, Leaf 98],
      trace = [(97, ''0''), (98, ''1'')]\<rparr>"
  have h1: "compress tree_dumps None (huffman_init [97, 98, 97, 98, 97, 98, 97, 98]) = Inr s"
    unfolding s_def by (rule ab_compress)
  have h2: "encode (trace s) (worker s) = Inr ''01010101''"
    by (simp only: s_def huffman.simps ab_encoded)
  have h3: "length ''01010101'' mod 8 = 0"
    by simp
  have h4: "tree_loads (tree_dumps (tree_tool s)) = Some (Branch [Leaf 97, Leaf 98])"
    by (simp only: s_def huffman.simps ab_loads)
  have o: "output_buf s = [0, 6, 1, 0, 97, 0, 98, 2, 0, 85]"
    by (simp add: s_def)
  note r = roundtrip_lost_without_padding [where loads = tree_loads and dumps = tree_dumps,
      OF h1 h2 h3 h4]
  show ?thesis
    by (intro exI [of _ s] conjI h1 h2 h3 h4 o conjunct1 [OF r])
qed

text \<open>
  C2. A buffer with one distinct byte value is to be compressed without a crash, under a
  single-symbol policy, and to decompress to itself. The code has no such policy: for
  \<open>b"aaaa"\<close> the working list has one entry, the loop does not run, line 171 stores the
  one-item tree, and line 172 raises IndexError on \<open>sorted_frequency[1]\<close>. No frame is
  produced, whatever the pickle codec.
\<close>

theorem compress_single_symbol_raises:
  "compress dumps None (huffman_init [97, 97, 97, 97]) =
     Inl (IndexError,
          \<lparr>worker = [97, 97, 97, 97], output_buf = [], frequency = [(97, 4)],
           tree_tool = Branch [Leaf 97], trace = []\<rparr>)"
  by code_simp

text \<open>
  C3. The empty buffer is to be refused with a dedicated error or compressed to an empty
  frame, without running the tree builder on the empty frequency table. The code runs
  the builder on the empty table: the working list is empty, line 171 stores the empty
  tree, and line 172 raises IndexError on \<open>sorted_frequency[0]\<close>.
\<close>

theorem compress_empty_raises:
  "compress dumps None (huffman_init []) =
     Inl (IndexError,
          \<lparr>worker = [], output_buf = [], frequency = [],
           tree_tool = Branch [], trace = []\<rparr>)"
  by code_simp

text \<open>
  C4. For a frame whose tree blob unpickles and whose padding byte is 0, \<open>decompress\<close>
  completes with the empty byte sequence as its output, whatever the packed bits are:
  \<open>bit_string[:-0]\<close> is empty, so the decoding loop does not run. The hypothesis asks
  for the padding byte to be present, which covers every frame with packed bits.
\<close>

theorem decompress_zero_padding:
  assumes "loads (slice 2 (from_bytes (slice 0 2 (worker (set_alt_in alt_in self0))) + 2)
                        (worker (set_alt_in alt_in self0))) = Some decomp_tree"
    and "from_bytes (slice 0 2 (worker (set_alt_in alt_in self0))) + 2
           < length (worker (set_alt_in alt_in self0))"
    and "worker (set_alt_in alt_in self0)
           ! (from_bytes (slice 0 2 (worker (set_alt_in alt_in self0))) + 2) = 0"
  shows "decompress loads alt_in self0 = Inr ((set_alt_in alt_in self0)\<lparr>output_buf := []\<rparr>)"
  using assms
  by (simp add: decompress_def split_frame_def Let_def slice_to_neg_def bytearray_of_def
      decode_loop.simps [of _ "[]"])

theorem decompress_zero_padding_witness:
  "tree_loads (slice 2 (from_bytes (slice 0 2 [0, 6, 1, 0, 97, 0, 98, 2, 0, 85]) + 2)
                 [0, 6, 1, 0, 97, 0, 98, 2, 0, 85]) = Some (Branch [Leaf 97, Leaf 98])
   \<and> from_bytes (slice 0 2 [0, 6, 1, 0, 97, 0, 98, 2, 0, 85]) + 2
         < length [0, 6, 1, 0, 97, 0, 98, 2, 0, 85 :: nat]
   \<and> [0, 6, 1, 0, 97, 0, 98, 2, 0, 85] ! (from_bytes (slice 0 2 [0, 6, 1, 0, 97, 0, 98, 2, 0, 85]) + 2)
         = (0 :: nat)
   \<and> decompress tree_loads None (huffman_init [0, 6, 1, 0, 97, 0, 98, 2, 0, 85]) =
       Inr ((huffman_init [0, 6, 1, 0, 97, 0, 98, 2, 0, 85])\<lparr>output_buf := []\<rparr>)"
proof -
  have w: "worker (set_alt_in None (huffman_init [0, 6, 1, 0, 97, 0, 98, 2, 0, 85])) =
             [0, 6, 1, 0, 97, 0, 98, 2, 0, 85]"
    by (simp add: set_alt_in_def huffman_init_def new_worker_def)
  have h1: "tree_loads (slice 2 (from_bytes (slice 0 2 [0, 6, 1, 0, 97, 0, 98, 2, 0, 85]) + 2)
                 [0, 6, 1, 0, 97, 0, 98, 2, 0, 85]) = Some (Branch [Leaf 97, Leaf 98])"
    by code_simp
  have h2: "from_bytes (slice 0 2 [0, 6, 1, 0, 97, 0, 98, 2, 0, 85]) + 2
         < length [0, 6, 1, 0, 97, 0, 98, 2, 0, 85 :: nat]"
    by code_simp
  have h3: "[0, 6, 1, 0, 97, 0, 98, 2, 0, 85] ! (from_bytes (slice 0 2 [0, 6, 1, 0, 97, 0, 98, 2, 0, 85]) + 2)
         = (0 :: nat)"
    by code_simp
  have "decompress tree_loads None (huffman_init [0, 6, 1, 0, 97, 0, 98, 2, 0, 85]) =
       Inr ((set_alt_in None (huffman_init [0, 6, 1, 0, 97, 0, 98, 2, 0, 85]))\<lparr>output_buf := []\<rparr>)"
    using decompress_zero_padding [of tree_loads None "huffman_init [0, 6, 1, 0, 97, 0, 98, 2, 0, 85]"
        "Branch [Leaf 97, Leaf 98]"] h1 h2 h3
    unfolding w by blast
  then show ?thesis
    using h1 h2 h3 by (simp add: set_alt_in_def)
qed

text \<open>
  C5. When the buffer holds at least two distinct byte values, the trace dictionary that
  \<open>compress\<close> leaves in the object has one entry for every byte value of the frequency
  table and no others (its keys are distinct and are the keys of the frequency table),
  and no code is a prefix of the code of another byte.
\<close>

theorem code_table_prefix_free:
  assumes "2 \<le> card (set (worker (set_alt_in alt_in self0)))"
  shows "distinct (map fst (trace (state_of (compress dumps alt_in self0))))
       \<and> set (map fst (trace (state_of (compress dumps alt_in self0))))
           = set (map fst (frequency (state_of (compress dumps alt_in self0))))
       \<and> prefix_free (trace (state_of (compress dumps alt_in self0)))"
proof -
  from builder_result [OF assms] obtain tr where
    tr: "final_trace (build_loop (init_sorted (count_frequency (worker (set_alt_in alt_in self0)))))
           = Inr tr"
    and props: "distinct (map fst tr)" "set (map fst tr) = set (worker (set_alt_in alt_in self0))"
      "prefix_free tr"
    by blast
  show ?thesis
    unfolding compress_after_trace [OF tr]
    using props count_frequency_keys(2) [of "worker (set_alt_in alt_in self0)"] by simp
qed

theorem code_table_prefix_free_witness:
  "2 \<le> card (set (worker (set_alt_in None (huffman_init [97, 98, 99, 97, 98, 99, 97, 98, 99]))))
   \<and> trace (state_of (compress tree_dumps None (huffman_init [97, 98, 99, 97, 98, 99, 97, 98, 99])))
       = [(99, ''00''), (98, ''01''), (97, ''1'')]
   \<and> prefix_free (trace (state_of (compress tree_dumps None
         (huffman_init [97, 98, 99, 97, 98, 99, 97, 98, 99]))))"
proof -
  have "2 \<le> card (set [97, 98, 99, 97, 98, 99, 97, 98, 99 :: nat])"
    by code_simp
  then have h: "2 \<le> card (set (worker (set_alt_in None
              (huffman_init [97, 98, 99, 97, 98, 99, 97, 98, 99]))))"
    by (simp only: worker_init)
  have t: "trace (state_of (compress tree_dumps None (huffman_init [97, 98, 99, 97, 98, 99, 97, 98, 99])))
       = [(99, ''00''), (98, ''01''), (97, ''1'')]"
    by (simp add: abc_compress state_of_def)
  note c = code_table_prefix_free [where dumps = tree_dumps, OF h]
  show ?thesis
    by (intro conjI h t c [THEN conjunct2, THEN conjunct2])
qed

text \<open>
  C6. At every pass of the builder loop, the two entries popped from the working list
  have the lowest frequencies of the list: the first popped is no more frequent than the
  second, and the second no more frequent than any entry left. The new working list is
  the entries left and the branch that combines the two, whose frequency is their sum.
  The choice among equal frequencies is fixed by the list order, which the stable sort
  determines: \<open>loop_body\<close> is a function of the list.
\<close>

theorem lowest_two_combined:
  assumes "loop_state freq sf" and "2 < length sf"
  shows "freq_of (last sf) \<le> freq_of (last (butlast sf))
       \<and> (\<forall>e \<in> set (butlast (butlast sf)). freq_of (last (butlast sf)) \<le> freq_of e)
       \<and> mset (loop_body sf)
           = mset (butlast (butlast sf)) + {#new_branch (last sf) (last (butlast sf))#}
       \<and> freq_of (new_branch (last sf) (last (butlast sf)))
           = freq_of (last sf) + freq_of (last (butlast sf))
       \<and> build_loop (loop_body sf) = build_loop (init_sorted freq)"
proof -
  define set1 where "set1 = last sf"
  define set2 where "set2 = last (butlast sf)"
  define popped where "popped = butlast (butlast sf)"
  have sf: "sf = popped @ [set2, set1]"
    unfolding set1_def set2_def popped_def using assms(2) by (intro last_two) simp
  have "sorted (map (\<lambda>e. - freq_of e) (popped @ [set2, set1]))"
    by (subst sf [symmetric]) (rule loop_state_descending [OF assms(1)])
  then have order: "freq_of set1 \<le> freq_of set2" "\<forall>e \<in> set popped. freq_of set2 \<le> freq_of e"
    by (auto simp: sorted_append)
  have bag: "mset (loop_body sf) = mset popped + {#new_branch set1 set2#}"
    by (simp add: loop_body_def Let_def sorted_reverse_def set1_def set2_def popped_def)
  have sum: "freq_of (new_branch set1 set2) = freq_of set1 + freq_of set2"
    by (simp add: new_branch_def freq_of_def)
  have "build_loop (loop_body sf) = build_loop (init_sorted freq)"
    using loop_state_on_path [OF loop_state.step [OF assms]] .
  with order bag sum show ?thesis
    unfolding set1_def set2_def popped_def by blast
qed

theorem lowest_two_combined_witness:
  "loop_state [(97, 3), (98, 2), (99, 1), (100, 1)] (init_sorted [(97, 3), (98, 2), (99, 1), (100, 1)])
   \<and> 2 < length (init_sorted [(97, 3), (98, 2), (99, 1), (100, 1)])
   \<and> last (init_sorted [(97, 3), (98, 2), (99, 1), (100, 1)]) = (Leaf 100, 1, [(100, [])])
   \<and> last (butlast (init_sorted [(97, 3), (98, 2), (99, 1), (100, 1)])) = (Leaf 99, 1, [(99, [])])
   \<and> (Leaf 98, 2, [(98, [])]) \<in> set (butlast (butlast (init_sorted [(97, 3), (98, 2), (99, 1), (100, 1)])))
   \<and> freq_of (last (init_sorted [(97, 3), (98, 2), (99, 1), (100, 1)]))
       \<le> freq_of (last (butlast (init_sorted [(97, 3), (98, 2), (99, 1), (100, 1)])))
   \<and> freq_of (last (butlast (init_sorted [(97, 3), (98, 2), (99, 1), (100, 1)])))
       \<le> freq_of (Leaf 98, 2, [(98, [])])"
proof -
  have s: "loop_state [(97, 3), (98, 2), (99, 1), (100, 1)]
             (init_sorted [(97, 3), (98, 2), (99, 1), (100, 1)])"
    by (rule loop_state.start)
  have l: "2 < length (init_sorted [(97, 3), (98, 2), (99, 1), (100, 1)])"
    by code_simp
  have e1: "last (init_sorted [(97, 3), (98, 2), (99, 1), (100, 1)]) = (Leaf 100, 1, [(100, [])])"
    by code_simp
  have e2: "last (butlast (init_sorted [(97, 3), (98, 2), (99, 1), (100, 1)]))
              = (Leaf 99, 1, [(99, [])])"
    by code_simp
  have m: "(Leaf 98, 2, [(98, [])])
             \<in> set (butlast (butlast (init_sorted [(97, 3), (98, 2), (99, 1), (100, 1)])))"
    by code_simp
  note c = lowest_two_combined [OF s l]
  note c1 = c [THEN conjunct1]
  note c2 = c [THEN conjunct2, THEN conjunct1, THEN bspec, OF m]
  show ?thesis
    by (intro conjI s l e1 e2 m c1 c2)
qed

text \<open>
  C7. Every frame that \<open>compress\<close> produces starts with the length of the pickled tree
  as two bytes, most significant first (the length is below 65536 and \<open>from_bytes\<close>
  reads it back); the pickled tree follows at offset 2; the next byte is the padding
  count; the rest is the padded bit string of the codes, eight bits a byte, most
  significant bit first (\<open>bits_of\<close>, the reader of \<open>decompress\<close>, gives the padded bit
  string back). So the frame is at least 3 bytes longer than the pickled tree.
\<close>

theorem frame_layout:
  assumes "compress dumps alt_in self0 = Inr s"
  shows "\<exists>encoded.
           encode (trace s) (worker s) = Inr encoded
         \<and> length (dumps (tree_tool s)) < 65536
         \<and> slice 0 2 (output_buf s)
             = [length (dumps (tree_tool s)) div 256, length (dumps (tree_tool s)) mod 256]
         \<and> from_bytes (slice 0 2 (output_buf s)) = length (dumps (tree_tool s))
         \<and> slice 2 (length (dumps (tree_tool s)) + 2) (output_buf s) = dumps (tree_tool s)
         \<and> output_buf s ! (length (dumps (tree_tool s)) + 2) = padding_of encoded
         \<and> drop (length (dumps (tree_tool s)) + 3) (output_buf s)
             = map bits_value (chunks (encoded @ replicate (padding_of encoded) CHR ''1''))
         \<and> bits_of (drop (length (dumps (tree_tool s)) + 3) (output_buf s))
             = encoded @ replicate (padding_of encoded) CHR ''1''
         \<and> 3 + length (dumps (tree_tool s)) \<le> length (output_buf s)"
proof -
  let ?n = "length (dumps (tree_tool s))"
  from compress_writes [OF assms] obtain encoded where
    enc: "encode (trace s) (worker s) = Inr encoded"
    and n: "?n < 65536"
    and out: "output_buf s = [?n div 256, ?n mod 256] @ dumps (tree_tool s)
                @ padding_of encoded
                  # map bits_value (chunks (encoded @ replicate (padding_of encoded) CHR ''1''))"
    and bits: "bits_of (map bits_value (chunks (encoded @ replicate (padding_of encoded) CHR ''1'')))
                 = encoded @ replicate (padding_of encoded) CHR ''1''"
    by blast
  let ?packed = "map bits_value (chunks (encoded @ replicate (padding_of encoded) CHR ''1''))"
  note parts = frame_parts [of "dumps (tree_tool s)" ?n "?n div 256" "?n mod 256"
      "padding_of encoded" ?packed, OF refl, folded out]
  have "from_bytes (slice 0 2 (output_buf s)) = ?n"
    using parts(1) from_bytes_two [OF n] by simp
  moreover have "bits_of (drop (?n + 3) (output_buf s))
                   = encoded @ replicate (padding_of encoded) CHR ''1''"
    using parts(4) bits by simp
  moreover have "3 + ?n \<le> length (output_buf s)"
    using parts(5) by simp
  ultimately show ?thesis
    using enc n parts(1-4) by blast
qed

theorem frame_layout_witness:
  "\<exists>s. compress tree_dumps None (huffman_init [97, 98, 99, 97, 98, 99, 97, 98, 99]) = Inr s
      \<and> output_buf s = [0, 10, 1, 1, 0, 99, 0, 98, 2, 0, 97, 2, 1, 165, 41]
      \<and> from_bytes (slice 0 2 (output_buf s)) = length (tree_dumps (tree_tool s))
      \<and> slice 2 (length (tree_dumps (tree_tool s)) + 2) (output_buf s) = tree_dumps (tree_tool s)
      \<and> 3 + length (tree_dumps (tree_tool s)) \<le> length (output_buf s)"
proof -
  define s where "s =
     \<lparr>worker = [97, 98, 99, 97, 98, 99, 97, 98, 99],
      output_buf = [0, 10, 1, 1, 0, 99, 0, 98, 2, 0, 97, 2, 1, 165, 41],
      frequency = [(97, 3), (98, 3), (99, 3)],
      tree_tool = Branch [Branch [Leaf 99, Leaf 98], Leaf 97],
      trace = [(99, ''00''), (98, ''01''), (97, ''1'')]\<rparr>"
  have h: "compress tree_dumps None (huffman_init [97, 98, 99, 97, 98, 99, 97, 98, 99]) = Inr s"
    unfolding s_def by (rule abc_compress)
  have o: "output_buf s = [0, 10, 1, 1, 0, 99, 0, 98, 2, 0, 97, 2, 1, 165, 41]"
    by (simp add: s_def)
  from frame_layout [OF h] obtain encoded where
    c: "from_bytes (slice 0 2 (output_buf s)) = length (tree_dumps (tree_tool s))"
      "slice 2 (length (tree_dumps (tree_tool s)) + 2) (output_buf s) = tree_dumps (tree_tool s)"
      "3 + length (tree_dumps (tree_tool s)) \<le> length (output_buf s)"
    by blast
  show ?thesis
    by (intro exI [of _ s] conjI h o c)
qed



text \<open>
  C10. For a buffer with at least two distinct byte values, whose pickled tree fits the
  length field, \<open>compress\<close> completes, and the padding count it records in the frame is
  the number of filler bits \<open>1\<close> that the padding loop appended to the encoded bit
  string: at most 7, bringing the length to a multiple of 8, and no smaller number
  does.
\<close>

theorem padding_count_bound:
  assumes "2 \<le> card (set (worker (set_alt_in alt_in self0)))"
    and "length (dumps (Branch (map fst (build_loop (init_sorted
           (count_frequency (worker (set_alt_in alt_in self0)))))))) < 65536"
  shows "\<exists>s encoded padding.
           compress dumps alt_in self0 = Inr s
         \<and> encode (trace s) (worker s) = Inr encoded
         \<and> pad_loop encoded 0 = (encoded @ replicate padding CHR ''1'', padding)
         \<and> output_buf s ! (length (dumps (tree_tool s)) + 2) = padding
         \<and> padding \<le> 7
         \<and> (length encoded + padding) mod 8 = 0
         \<and> (\<forall>q < padding. (length encoded + q) mod 8 \<noteq> 0)"
proof -
  let ?w = "worker (set_alt_in alt_in self0)"
  from packer_runs [OF assms(1)] obtain tr byte_convert where
    tr: "final_trace (build_loop (init_sorted (count_frequency ?w))) = Inr tr"
    and bp: "bit_packer tr ?w = Inr byte_convert"
    by blast
  from assms(2) obtain out where
    "frame_assemble dumps (Branch (map fst (build_loop (init_sorted (count_frequency ?w)))))
       byte_convert = Inr out"
    by (simp add: frame_assemble_Inr)
  then obtain s where s: "compress dumps alt_in self0 = Inr s"
    by (simp add: compress_stages [OF tr bp])
  from compress_writes [OF s] obtain encoded where
    enc: "encode (trace s) (worker s) = Inr encoded"
    and out: "output_buf s
                = [length (dumps (tree_tool s)) div 256, length (dumps (tree_tool s)) mod 256]
                  @ dumps (tree_tool s)
                  @ padding_of encoded
                    # map bits_value (chunks (encoded @ replicate (padding_of encoded) CHR ''1''))"
    by blast
  have pad: "output_buf s ! (length (dumps (tree_tool s)) + 2) = padding_of encoded"
    unfolding out by (rule frame_parts(3) [OF refl])
  have "padding_of encoded \<le> 7"
    by (simp add: padding_of_def pad_amount_le)
  moreover have "(length encoded + padding_of encoded) mod 8 = 0"
    by (simp add: padding_of_def pad_amount_fills)
  moreover have "\<forall>q < padding_of encoded. (length encoded + q) mod 8 \<noteq> 0"
    using pad_minimal [of _ "length encoded"] by (simp add: padding_of_def)
  ultimately show ?thesis
    using s enc pad pad_loop_padding_of [of encoded]
    by (intro exI [of _ s] exI [of _ encoded] exI [of _ "padding_of encoded"]) simp
qed

theorem padding_count_bound_witness:
  "2 \<le> card (set (worker (set_alt_in None (huffman_init [97, 98, 99, 97, 98, 99, 97, 98, 99]))))
   \<and> length (tree_dumps (Branch (map fst (build_loop (init_sorted
           (count_frequency (worker (set_alt_in None
              (huffman_init [97, 98, 99, 97, 98, 99, 97, 98, 99]))))))))) < 65536
   \<and> (\<exists>s encoded padding.
           compress tree_dumps None (huffman_init [97, 98, 99, 97, 98, 99, 97, 98, 99]) = Inr s
         \<and> encode (trace s) (worker s) = Inr encoded
         \<and> pad_loop encoded 0 = (encoded @ replicate padding CHR ''1'', padding)
         \<and> output_buf s ! (length (tree_dumps (tree_tool s)) + 2) = padding
         \<and> padding \<le> 7
         \<and> (length encoded + padding) mod 8 = 0
         \<and> (\<forall>q < padding. (length encoded + q) mod 8 \<noteq> 0))"
proof -
  have "2 \<le> card (set [97, 98, 99, 97, 98, 99, 97, 98, 99 :: nat])"
    by code_simp
  then have h1: "2 \<le> card (set (worker (set_alt_in None
              (huffman_init [97, 98, 99, 97, 98, 99, 97, 98, 99]))))"
    by (simp only: worker_init)
  have h2: "length (tree_dumps (Branch (map fst (build_loop (init_sorted
           (count_frequency (worker (set_alt_in None
              (huffman_init [97, 98, 99, 97, 98, 99, 97, 98, 99]))))))))) < 65536"
    by (simp add: abc_freq abc_built)
  note c = padding_count_bound [where dumps = tree_dumps and alt_in = None
      and ?self0.0 = "huffman_init [97, 98, 99, 97, 98, 99, 97, 98, 99]", OF h1 h2]
  show ?thesis
    by (intro conjI h1 h2 c)
qed

end
